theory Spec2Isabelle
  imports Main "HOL-Library.Multiset" "HOL-Library.Sublist" "HOL-Library.List_Lexorder"
begin

section \<open>Data model\<close>

text \<open>
  The chord engine of \<^verbatim>\<open>chordDatabase.ts\<close>. Pitch numbers are the integers the
  code computes with (\<^verbatim>\<open>number\<close> restricted to integral values). A string is its
  sequence of code units; the type \<open>char\<close> holds the code units below 256, and the
  string operations below are defined on every such unit as the host language defines
  them.

  \<^verbatim>\<open>interface ChordData { name; notes; midiNotes; type; extension }\<close> and
  \<^verbatim>\<open>interface ChordVoicing { name; notes }\<close>. The field \<^verbatim>\<open>notes\<close> is a
  reserved word of the theory language, and the two interfaces share field names, so
  \<^verbatim>\<open>ChordData.notes\<close> is \<open>noteNames\<close>, \<^verbatim>\<open>ChordVoicing.name\<close> is
  \<open>voicingName\<close> and \<^verbatim>\<open>ChordVoicing.notes\<close> is \<open>voicingNotes\<close>.

  The interface declares \<^verbatim>\<open>midiNotes: number[]\<close>, and the voicing generators are
  modelled on entries that meet the declaration (\<open>int ChordData\<close>). The parser stores in
  \<^verbatim>\<open>midiNotes\<close> whatever \<^verbatim>\<open>noteToMidi\<close> returned, which for some labels is a string;
  its entries are \<open>jsval ChordData\<close>. The element type is the parameter of the record.
\<close>

datatype jsval = Num int | Str string

record 'v ChordData =
  name :: string
  noteNames :: "string list"
  midiNotes :: "'v list"
  type :: string
  extension :: string

record ChordVoicing =
  voicingName :: string
  voicingNotes :: "int list"

section \<open>Voicing generator (order-preserving variant)\<close>

text \<open>
  \<^verbatim>\<open>while (note <= prev) { note += 12; }\<close>: the loop that lifts a pitch by octaves
  until it lies strictly above the previously accepted pitch, as it runs in
  \<^verbatim>\<open>calculateVoicings\<close> on pitch numbers. (\<^verbatim>\<open>convertChordNotesToMidi\<close> has the
  same loop on the values that \<^verbatim>\<open>noteToMidi\<close> returns: \<open>octaveUpVal\<close> below.)
\<close>

function octaveUp :: "int \<Rightarrow> int \<Rightarrow> int" where
  "octaveUp prev note = (if note \<le> prev then octaveUp prev (note + 12) else note)"
  by pat_completeness auto
termination
  by (relation "measure (\<lambda>(prev, note). nat (prev - note + 1))") auto

declare octaveUp.simps [simp del]

text \<open>
  \<^verbatim>\<open>for (let i = 0; i < inv; i++) { invNotes[i] += 12; }\<close>. The caller has
  \<open>k < length invNotes\<close> (\<open>k\<close> is the source's \<^verbatim>\<open>inv\<close>), so every index written is in range.
\<close>

function raiseLoop :: "nat \<Rightarrow> nat \<Rightarrow> int list \<Rightarrow> int list" where
  "raiseLoop i k invNotes =
     (if i < k then raiseLoop (i + 1) k (invNotes[i := invNotes ! i + 12]) else invNotes)"
  by pat_completeness auto
termination
  by (relation "measure (\<lambda>(i, k, invNotes). k - i)") auto

declare raiseLoop.simps [simp del]

text \<open>
  \<^verbatim>\<open>for (let i = 1; i < rotatedNotes.length; i++) { ...; sortedInversion.push(note); }\<close>:
  the first argument is the list built so far (never empty), the second the elements of
  \<^verbatim>\<open>rotatedNotes\<close> still to be visited.
\<close>

fun ascendLoop :: "int list \<Rightarrow> int list \<Rightarrow> int list" where
  "ascendLoop sortedInversion [] = sortedInversion"
| "ascendLoop sortedInversion (note # rest) =
     ascendLoop (sortedInversion @ [octaveUp (last sortedInversion) note]) rest"

text \<open>\<^verbatim>\<open>Math.max(...xs)\<close> on a non-empty list.\<close>

fun mathMax :: "int list \<Rightarrow> int" where
  "mathMax [] = 0"
| "mathMax (x # xs) = fold max xs x"

definition KEYBOARD_MAX :: int where
  "KEYBOARD_MAX = 83"

definition inversionName :: "nat \<Rightarrow> string" where
  "inversionName k = (if k = 1 then ''1st Inv'' else if k = 2 then ''2nd Inv'' else ''3rd Inv'')"

text \<open>The body of the inversion loop for one value of the loop variable \<^verbatim>\<open>inv\<close>, here \<open>k\<close>: the voicing it pushes.\<close>

definition inversion :: "nat \<Rightarrow> int list \<Rightarrow> ChordVoicing" where
  "inversion k rootNotes =
     (let invNotes = raiseLoop 0 k rootNotes;
          rotatedNotes = drop k invNotes @ take k invNotes;
          sortedInversion = (case rotatedNotes of
                               [] \<Rightarrow> []
                             | first # rest \<Rightarrow> ascendLoop [first] rest);
          highestNote = mathMax sortedInversion
      in if highestNote > KEYBOARD_MAX
         then \<lparr>voicingName = inversionName k,
               voicingNotes = map (\<lambda>note. note - 12) sortedInversion\<rparr>
         else \<lparr>voicingName = inversionName k, voicingNotes = sortedInversion\<rparr>)"

text \<open>\<^verbatim>\<open>for (let inv = 1; inv < numInversions; inv++) { ...; voicings.push(...); }\<close>\<close>

function inversionLoop :: "nat \<Rightarrow> nat \<Rightarrow> int list \<Rightarrow> ChordVoicing list \<Rightarrow> ChordVoicing list" where
  "inversionLoop k numInversions rootNotes voicings =
     (if k < numInversions
      then inversionLoop (k + 1) numInversions rootNotes (voicings @ [inversion k rootNotes])
      else voicings)"
  by pat_completeness auto
termination
  by (relation "measure (\<lambda>(k, numInversions, rootNotes, voicings). numInversions - k)") auto

declare inversionLoop.simps [simp del]

definition calculateVoicings :: "int ChordData \<Rightarrow> ChordVoicing list" where
  "calculateVoicings chord =
     (if length (midiNotes chord) = 0 then []
      else let rootNotes = midiNotes chord;
               voicings = [\<lparr>voicingName = ''Root'', voicingNotes = rootNotes\<rparr>];
               numInversions = min (length rootNotes) 4
           in inversionLoop 1 numInversions rootNotes voicings)"

section \<open>Strings\<close>

text \<open>
  The string operations of the host language that the code calls:
  \<^verbatim>\<open>trim\<close>, \<^verbatim>\<open>toLowerCase\<close>, \<^verbatim>\<open>includes\<close>, \<^verbatim>\<open>startsWith\<close> and
  \<^verbatim>\<open>split\<close>. Among the code units below 256 the white space that \<^verbatim>\<open>trim\<close>
  strips is tab, line feed, vertical tab, form feed, carriage return, space and the
  no-break space U+00A0; \<^verbatim>\<open>toLowerCase\<close> maps A..Z and the capital letters
  U+00C0..U+00DE (without the multiplication sign U+00D7) to the unit 32 above and leaves
  every other unit as it is.
\<close>

definition isWhiteSpace :: "char \<Rightarrow> bool" where
  "isWhiteSpace c =
     (c \<in> set [CHR 0x09, CHR 0x0A, CHR 0x0B, CHR 0x0C, CHR 0x0D, CHR 0x20, CHR 0xA0])"

definition trim :: "string \<Rightarrow> string" where
  "trim s = rev (dropWhile isWhiteSpace (rev (dropWhile isWhiteSpace s)))"

definition upperCaseUnits :: string where
  "upperCaseUnits = ''ABCDEFGHIJKLMNOPQRSTUVWXYZ'' @
     [CHR 0xC0, CHR 0xC1, CHR 0xC2, CHR 0xC3, CHR 0xC4, CHR 0xC5, CHR 0xC6, CHR 0xC7,
      CHR 0xC8, CHR 0xC9, CHR 0xCA, CHR 0xCB, CHR 0xCC, CHR 0xCD, CHR 0xCE, CHR 0xCF,
      CHR 0xD0, CHR 0xD1, CHR 0xD2, CHR 0xD3, CHR 0xD4, CHR 0xD5, CHR 0xD6,
      CHR 0xD8, CHR 0xD9, CHR 0xDA, CHR 0xDB, CHR 0xDC, CHR 0xDD, CHR 0xDE]"

definition lowerCaseUnits :: string where
  "lowerCaseUnits = ''abcdefghijklmnopqrstuvwxyz'' @
     [CHR 0xE0, CHR 0xE1, CHR 0xE2, CHR 0xE3, CHR 0xE4, CHR 0xE5, CHR 0xE6, CHR 0xE7,
      CHR 0xE8, CHR 0xE9, CHR 0xEA, CHR 0xEB, CHR 0xEC, CHR 0xED, CHR 0xEE, CHR 0xEF,
      CHR 0xF0, CHR 0xF1, CHR 0xF2, CHR 0xF3, CHR 0xF4, CHR 0xF5, CHR 0xF6,
      CHR 0xF8, CHR 0xF9, CHR 0xFA, CHR 0xFB, CHR 0xFC, CHR 0xFD, CHR 0xFE]"

definition toLowerChar :: "char \<Rightarrow> char" where
  "toLowerChar c =
     (case map_of (zip upperCaseUnits lowerCaseUnits) c of
        None \<Rightarrow> c
      | Some d \<Rightarrow> d)"

definition toLowerCase :: "string \<Rightarrow> string" where
  "toLowerCase s = map toLowerChar s"

text \<open>\<^verbatim>\<open>s.includes(q)\<close>: \<open>q\<close> occurs in \<open>s\<close> as a contiguous run.\<close>

definition includes_str :: "string \<Rightarrow> string \<Rightarrow> bool" where
  "includes_str s q = sublist q s"

definition startsWith :: "string \<Rightarrow> string \<Rightarrow> bool" where
  "startsWith s q = prefix q s"

text \<open>
  \<^verbatim>\<open>s.split(sep)\<close> for a one-character separator: always at least one piece, an
  empty piece between adjacent separators and at either end.
\<close>

fun split :: "char \<Rightarrow> string \<Rightarrow> string list" where
  "split sep [] = [[]]"
| "split sep (c # cs) =
     (if c = sep then [] # split sep cs
      else (case split sep cs of
              [] \<Rightarrow> [[c]]
            | w # ws \<Rightarrow> (c # w) # ws))"

text \<open>
  \<^verbatim>\<open>a.localeCompare(b)\<close> is the collation of the host's locale. It is not defined
  here: the search takes it as a parameter, and the theorems about the ranking hold for
  every comparison that is consistent, which the language standard requires of
  \<^verbatim>\<open>localeCompare\<close>: the sign of \<open>a\<close> against \<open>b\<close> is the opposite of the sign of
  \<open>b\<close> against \<open>a\<close>, and "not after" is transitive.
\<close>

definition consistentComparator :: "(string \<Rightarrow> string \<Rightarrow> int) \<Rightarrow> bool" where
  "consistentComparator cmp \<longleftrightarrow>
     (\<forall>a b. (cmp a b < 0) = (cmp b a > 0))
     \<and> (\<forall>a b c. cmp a b \<le> 0 \<and> cmp b c \<le> 0 \<longrightarrow> cmp a c \<le> 0)"

text \<open>
  One consistent comparison, used where an example needs a concrete one: the comparison
  of the two strings unit by unit in code order. In the examples below the search never
  asks it about two different strings.
\<close>

fun codeUnitCompare :: "string \<Rightarrow> string \<Rightarrow> int" where
  "codeUnitCompare [] [] = 0"
| "codeUnitCompare [] (b # bs) = -1"
| "codeUnitCompare (a # as) [] = 1"
| "codeUnitCompare (a # as) (b # bs) =
     (if (of_char a :: nat) < of_char b then -1
      else if (of_char b :: nat) < of_char a then 1
      else codeUnitCompare as bs)"

section \<open>Run-time values of the pitch assignment\<close>

text \<open>
  The operators of the loop \<^verbatim>\<open>while (noteMidi <= prev) { noteMidi += 12; }\<close> on the
  values that reach it. Two numbers compare as numbers and add as numbers. Two strings
  compare unit by unit in code order, the shorter first when it is a prefix of the other.
  A string against a number is converted to a number first; the strings that arise here
  are the text of a function or of an object followed by digits, none of them a numeral,
  so the conversion gives NaN and the comparison is false. Adding 12 to a string appends
  the two characters "12".
\<close>

fun lessEqStr :: "string \<Rightarrow> string \<Rightarrow> bool" where
  "lessEqStr [] t = True"
| "lessEqStr (a # s) [] = False"
| "lessEqStr (a # s) (b # t) =
     (if (of_char a :: nat) < of_char b then True
      else if (of_char b :: nat) < of_char a then False
      else lessEqStr s t)"

fun lessEq :: "jsval \<Rightarrow> jsval \<Rightarrow> bool" where
  "lessEq (Num a) (Num b) = (a \<le> b)"
| "lessEq (Str s) (Str t) = lessEqStr s t"
| "lessEq (Num a) (Str t) = False"
| "lessEq (Str s) (Num b) = False"

fun plus12 :: "jsval \<Rightarrow> jsval" where
  "plus12 (Num n) = Num (n + 12)"
| "plus12 (Str s) = Str (s @ ''12'')"

text \<open>
  The loop itself. On numbers it ends, as \<open>octaveUp\<close> does; on two strings it need not,
  and \<open>None\<close> stands for a loop that does not end (limits of memory are not modelled).
\<close>

partial_function (option) octaveUpVal :: "jsval \<Rightarrow> jsval \<Rightarrow> jsval option" where
  "octaveUpVal prev noteMidi =
     (if lessEq noteMidi prev then octaveUpVal prev (plus12 noteMidi) else Some noteMidi)"

section \<open>Pitch mapper\<close>

text \<open>
  The table \<^verbatim>\<open>noteMap\<close> of \<^verbatim>\<open>noteToMidi\<close>, in the order it is written.
\<close>

definition noteMap :: "(string \<times> int) list" where
  "noteMap =
     [(''C'', 0), (''C#'', 1), (''Db'', 1),
      (''D'', 2), (''D#'', 3), (''Eb'', 3),
      (''E'', 4),
      (''F'', 5), (''F#'', 6), (''Gb'', 6),
      (''G'', 7), (''G#'', 8), (''Ab'', 8),
      (''A'', 9), (''A#'', 10), (''Bb'', 10),
      (''B'', 11)]"

text \<open>
  \<^verbatim>\<open>noteMap\<close> is an object literal, so the lookup \<^verbatim>\<open>noteMap[cleanNote]\<close> also finds
  the members every object inherits. For such a label the value is a function (for
  \<^verbatim>\<open>__proto__\<close> an object), the test \<^verbatim>\<open>baseNote === undefined\<close> is false, and
  \<^verbatim>\<open>baseNote + 60\<close> is the text of the member followed by "60". The table gives each
  inherited member with its text, as Node prints it.
\<close>

definition inheritedMembers :: "(string \<times> string) list" where
  "inheritedMembers =
     [(''constructor'', ''function Object() { [native code] }''),
      (''__defineGetter__'', ''function __defineGetter__() { [native code] }''),
      (''__defineSetter__'', ''function __defineSetter__() { [native code] }''),
      (''hasOwnProperty'', ''function hasOwnProperty() { [native code] }''),
      (''__lookupGetter__'', ''function __lookupGetter__() { [native code] }''),
      (''__lookupSetter__'', ''function __lookupSetter__() { [native code] }''),
      (''isPrototypeOf'', ''function isPrototypeOf() { [native code] }''),
      (''propertyIsEnumerable'', ''function propertyIsEnumerable() { [native code] }''),
      (''toString'', ''function toString() { [native code] }''),
      (''valueOf'', ''function valueOf() { [native code] }''),
      (''__proto__'', ''[object Object]''),
      (''toLocaleString'', ''function toLocaleString() { [native code] }'')]"

text \<open>The value \<^verbatim>\<open>noteToMidi\<close> returns.\<close>

definition noteToMidi :: "string \<Rightarrow> jsval" where
  "noteToMidi noteName =
     (let cleanNote = trim noteName
      in case map_of noteMap cleanNote of
           Some baseNote \<Rightarrow> Num (baseNote + 60)
         | None \<Rightarrow>
             (case map_of inheritedMembers cleanNote of
                Some text \<Rightarrow> Str (text @ ''60'')
              | None \<Rightarrow> Num 60))"

text \<open>
  What \<^verbatim>\<open>noteToMidi\<close> writes with \<^verbatim>\<open>console.warn\<close>: one line in the branch
  \<^verbatim>\<open>baseNote === undefined\<close>, nothing otherwise.
\<close>

definition noteToMidiLog :: "string \<Rightarrow> string list" where
  "noteToMidiLog noteName =
     (let cleanNote = trim noteName
      in case map_of noteMap cleanNote of
           Some baseNote \<Rightarrow> []
         | None \<Rightarrow>
             (case map_of inheritedMembers cleanNote of
                Some text \<Rightarrow> []
              | None \<Rightarrow> [''Unknown note: '' @ cleanNote]))"

section \<open>Catalog parser\<close>

text \<open>
  \<^verbatim>\<open>for (let i = 1; i < notes.length; i++) { let noteMidi = noteToMidi(notes[i]);
  while (noteMidi <= midiNotes[midiNotes.length - 1]) { noteMidi += 12; }
  midiNotes.push(noteMidi); }\<close>
  The first argument \<open>midi\<close> is the array \<^verbatim>\<open>midiNotes\<close> built so far, the second
  the labels still to be visited. The result is \<open>None\<close> when the inner loop does not
  end.
\<close>

fun convertLoop :: "jsval list \<Rightarrow> string list \<Rightarrow> jsval list option" where
  "convertLoop midi [] = Some midi"
| "convertLoop midi (n # rest) =
     (case octaveUpVal (last midi) (noteToMidi n) of
        None \<Rightarrow> None
      | Some noteMidi \<Rightarrow> convertLoop (midi @ [noteMidi]) rest)"

definition convertChordNotesToMidi :: "string list \<Rightarrow> jsval list option" where
  "convertChordNotesToMidi notes' =
     (case notes' of
        [] \<Rightarrow> Some []
      | root # rest \<Rightarrow> convertLoop [noteToMidi root] rest)"

text \<open>
  The pattern \<^verbatim>\<open>/^([^,]+),\"([^\"]+)\",([^,]+),(.+)$/\<close> applied to a whole line.
  No class of the pattern overlaps with the delimiter that follows it, so the match is
  found by reading left to right: the four captured groups, or \<open>None\<close> when the line
  does not match. The dot matches every character except the line terminators.
\<close>

definition comma :: char where
  "comma = CHR 0x2C"

definition dquote :: char where
  "dquote = CHR 0x22"

definition isLineTerminator :: "char \<Rightarrow> bool" where
  "isLineTerminator c = (c = CHR 0x0A \<or> c = CHR 0x0D)"

definition matchLine :: "string \<Rightarrow> (string \<times> string \<times> string \<times> string) option" where
  "matchLine line =
     (let g1 = takeWhile (\<lambda>c. c \<noteq> comma) line;
          r1 = dropWhile (\<lambda>c. c \<noteq> comma) line
      in if g1 = [] then None
         else case r1 of
                c1 # q1 # r2 \<Rightarrow>
                  if q1 \<noteq> dquote then None
                  else let g2 = takeWhile (\<lambda>c. c \<noteq> dquote) r2;
                           r3 = dropWhile (\<lambda>c. c \<noteq> dquote) r2
                       in if g2 = [] then None
                          else (case r3 of
                                  q2 # c2 # r4 \<Rightarrow>
                                    if c2 \<noteq> comma then None
                                    else let g3 = takeWhile (\<lambda>c. c \<noteq> comma) r4;
                                             r5 = dropWhile (\<lambda>c. c \<noteq> comma) r4
                                         in if g3 = [] then None
                                            else (case r5 of
                                                    c3 # g4 \<Rightarrow>
                                                      if g4 \<noteq> [] \<and> \<not> list_ex isLineTerminator g4
                                                      then Some (g1, g2, g3, g4)
                                                      else None
                                                  | _ \<Rightarrow> None)
                                | _ \<Rightarrow> None)
              | _ \<Rightarrow> None)"

text \<open>
  The declarative reading of the same pattern: the line is the concatenation of a
  non-empty comma-free group, a comma, a quote, a non-empty quote-free group, a quote, a
  comma, a non-empty comma-free group, a comma, and a non-empty group free of line
  terminators.
\<close>

definition patternShape :: "string \<Rightarrow> string \<Rightarrow> string \<Rightarrow> string \<Rightarrow> string \<Rightarrow> bool" where
  "patternShape line g1 g2 g3 g4 \<longleftrightarrow>
     line = g1 @ [comma, dquote] @ g2 @ [dquote, comma] @ g3 @ [comma] @ g4
     \<and> g1 \<noteq> [] \<and> comma \<notin> set g1
     \<and> g2 \<noteq> [] \<and> dquote \<notin> set g2
     \<and> g3 \<noteq> [] \<and> comma \<notin> set g3
     \<and> g4 \<noteq> [] \<and> \<not> list_ex isLineTerminator g4"

text \<open>
  The body of the loop for a line that matched: the entry pushed, with the lines that
  \<^verbatim>\<open>noteToMidi\<close> writes to the console while the labels are converted, one call per
  label in order. \<open>None\<close> when the conversion does not return.
\<close>

definition makeChord :: "string \<times> string \<times> string \<times> string \<Rightarrow> (jsval ChordData \<times> string list) option" where
  "makeChord m =
     (case m of (name', notesStr, type', extension') \<Rightarrow>
        let notes' = map trim (split comma notesStr)
        in case convertChordNotesToMidi notes' of
             None \<Rightarrow> None
           | Some midiNotes' \<Rightarrow>
               Some (\<lparr>name = trim name', noteNames = notes', midiNotes = midiNotes',
                      type = trim type', extension = trim extension'\<rparr>,
                     concat (map noteToMidiLog notes')))"

text \<open>
  The loop over the lines after the header. The state is the pair of the entries pushed
  so far and the lines written to the console so far, by the parser and by
  \<^verbatim>\<open>noteToMidi\<close>.
\<close>

fun parseLoop :: "string list \<Rightarrow> jsval ChordData list \<times> string list \<Rightarrow> (jsval ChordData list \<times> string list) option" where
  "parseLoop [] st = Some st"
| "parseLoop (l # ls) (chords, warnings) =
     (let line = trim l
      in if line = [] then parseLoop ls (chords, warnings)
         else case matchLine line of
                None \<Rightarrow> parseLoop ls (chords, warnings @ [''Could not parse line: '' @ line])
              | Some m \<Rightarrow>
                  (case makeChord m of
                     None \<Rightarrow> None
                   | Some (chord, log) \<Rightarrow> parseLoop ls (chords @ [chord], warnings @ log)))"

definition parseCsvText :: "string \<Rightarrow> (jsval ChordData list \<times> string list) option" where
  "parseCsvText csvText =
     (let lines' = split (CHR 0x0A) (trim csvText)
      in parseLoop (drop 1 lines') ([], []))"

text \<open>
  \<^verbatim>\<open>parseChordData\<close>: the raw text is \<open>None\<close> when reading the source throws; the
  \<^verbatim>\<open>catch\<close> branch then returns the empty catalog. The result is \<open>None\<close> when the
  call does not return.
\<close>

definition parseChordData :: "string option \<Rightarrow> jsval ChordData list option" where
  "parseChordData source =
     (case source of
        None \<Rightarrow> Some []
      | Some csvText \<Rightarrow> map_option fst (parseCsvText csvText))"

section \<open>Catalog cache\<close>

text \<open>
  The module variable \<^verbatim>\<open>chordDatabase\<close> is the state: \<open>None\<close> for \<^verbatim>\<open>null\<close>. An
  array, also the empty one, counts as present. The outer \<open>None\<close> of the result: the
  call does not return.
\<close>

definition loadChordDatabase :: "string option \<Rightarrow> jsval ChordData list option \<Rightarrow> (jsval ChordData list \<times> jsval ChordData list option) option" where
  "loadChordDatabase source chordDatabase =
     (case chordDatabase of
        Some chords \<Rightarrow> Some (chords, Some chords)
      | None \<Rightarrow>
          (case parseChordData source of
             None \<Rightarrow> None
           | Some chords \<Rightarrow> Some (chords, Some chords)))"

section \<open>Search ranker\<close>

text \<open>
  The comparator handed to \<^verbatim>\<open>sort\<close>, with the lower-cased query it closes over and
  the host's \<^verbatim>\<open>localeCompare\<close>.
\<close>

definition compareChords :: "(string \<Rightarrow> string \<Rightarrow> int) \<Rightarrow> string \<Rightarrow> 'v ChordData \<Rightarrow> 'v ChordData \<Rightarrow> int" where
  "compareChords localeCompare lowerQuery a b =
     (let aName = toLowerCase (name a);
          bName = toLowerCase (name b)
      in if aName = lowerQuery \<and> bName \<noteq> lowerQuery then -1
         else if bName = lowerQuery \<and> aName \<noteq> lowerQuery then 1
         else let aStartsWith = startsWith aName lowerQuery;
                  bStartsWith = startsWith bName lowerQuery
              in if aStartsWith \<and> \<not> bStartsWith then -1
                 else if bStartsWith \<and> \<not> aStartsWith then 1
                 else let aIsSimple = (type a = ''Major'' \<and> extension a = ''Triad'');
                          bIsSimple = (type b = ''Major'' \<and> extension b = ''Triad'')
                      in if aIsSimple \<and> \<not> bIsSimple then -1
                         else if bIsSimple \<and> \<not> aIsSimple then 1
                         else if length aName \<noteq> length bName
                              then int (length aName) - int (length bName)
                              else localeCompare aName bName)"

text \<open>
  \<^verbatim>\<open>Array.prototype.sort\<close> with a comparator: a stable sort. Insertion from the right
  puts an element before the elements that do not rank before it, so elements the
  comparator does not separate keep their order.
\<close>

fun insertBy :: "('a \<Rightarrow> 'a \<Rightarrow> int) \<Rightarrow> 'a \<Rightarrow> 'a list \<Rightarrow> 'a list" where
  "insertBy cmp x [] = [x]"
| "insertBy cmp x (y # ys) = (if cmp x y \<le> 0 then x # y # ys else y # insertBy cmp x ys)"

definition sortBy :: "('a \<Rightarrow> 'a \<Rightarrow> int) \<Rightarrow> 'a list \<Rightarrow> 'a list" where
  "sortBy cmp xs = foldr (insertBy cmp) xs []"

text \<open>
  \<^verbatim>\<open>searchChords\<close>, with the host's \<^verbatim>\<open>localeCompare\<close>, the raw source and the
  cache. \<open>None\<close>: the call does not return, which happens only when the load it awaits
  does not.
\<close>

definition searchChords :: "(string \<Rightarrow> string \<Rightarrow> int) \<Rightarrow> string \<Rightarrow> string option \<Rightarrow> jsval ChordData list option \<Rightarrow> (jsval ChordData list \<times> jsval ChordData list option) option" where
  "searchChords localeCompare query source chordDatabase =
     (if trim query = [] then Some ([], chordDatabase)
      else case loadChordDatabase source chordDatabase of
             None \<Rightarrow> None
           | Some (chords, chordDatabase') \<Rightarrow>
               let lowerQuery = toLowerCase query;
                   results = filter (\<lambda>chord. includes_str (toLowerCase (name chord)) lowerQuery) chords;
                   sortedResults = sortBy (compareChords localeCompare lowerQuery) results
               in Some (take 20 sortedResults, chordDatabase'))"

section \<open>Voicing generator (sort-based variant)\<close>

text \<open>
  \<^verbatim>\<open>calculateVoicings\<close> of \<^verbatim>\<open>src/data/chordDatabase.ts\<close>;
  \<^verbatim>\<open>sort((a, b) => a - b)\<close> is the ascending numeric sort.
\<close>

definition calculateVoicings_sortBased :: "int ChordData \<Rightarrow> ChordVoicing list" where
  "calculateVoicings_sortBased chord =
     (if length (midiNotes chord) = 0 then []
      else let sortedNotes = sort (midiNotes chord);
               voicings = [\<lparr>voicingName = ''Root'', voicingNotes = sortedNotes\<rparr>];
               voicings1 =
                 (if length sortedNotes > 1
                  then let firstInv = sortedNotes[0 := sortedNotes ! 0 + 12]
                       in voicings @ [\<lparr>voicingName = ''1st Inv'', voicingNotes = sort firstInv\<rparr>]
                  else voicings);
               voicings2 =
                 (if length sortedNotes > 2
                  then let secondInv0 = sortedNotes[0 := sortedNotes ! 0 + 12];
                           secondInv = secondInv0[1 := secondInv0 ! 1 + 12]
                       in voicings1 @ [\<lparr>voicingName = ''2nd Inv'', voicingNotes = sort secondInv\<rparr>]
                  else voicings1)
           in voicings2)"

section \<open>The inversion steps in the words of the specification\<close>

text \<open>
  Step (a): add 12 to each of the first \<open>k\<close> positions. Step (b): rotate left by \<open>k\<close>
  positions. Step (c): keep the first element, and lift every later element by the
  least number of octaves that takes it above its normalized predecessor. Step (d): if
  the maximum exceeds 83, subtract 12 from every element, once.
\<close>

definition raiseFirst :: "nat \<Rightarrow> int list \<Rightarrow> int list" where
  "raiseFirst k xs = map (\<lambda>x. x + 12) (take k xs) @ drop k xs"

definition rotateLeft :: "nat \<Rightarrow> int list \<Rightarrow> int list" where
  "rotateLeft k xs = drop k xs @ take k xs"

text \<open>
  The pitch reached by adding 12 to \<open>x\<close> until it exceeds \<open>prev\<close>, in closed form;
  \<open>octaveUp_eq\<close> and \<open>octaveUp_least\<close> below show that the loop of the code computes
  it and that it is the first such pitch.
\<close>

definition liftAbove :: "int \<Rightarrow> int \<Rightarrow> int" where
  "liftAbove prev x = (if x \<le> prev then x + 12 * ((prev - x) div 12 + 1) else x)"

fun renormalizeFrom :: "int \<Rightarrow> int list \<Rightarrow> int list" where
  "renormalizeFrom prev [] = []"
| "renormalizeFrom prev (x # xs) = liftAbove prev x # renormalizeFrom (liftAbove prev x) xs"

fun renormalize :: "int list \<Rightarrow> int list" where
  "renormalize [] = []"
| "renormalize (x # xs) = x # renormalizeFrom x xs"

definition rangePolicy :: "int list \<Rightarrow> int list" where
  "rangePolicy s = (if Max (set s) > 83 then map (\<lambda>x. x - 12) s else s)"

section \<open>The record shape in the words of the specification\<close>

text \<open>
  "Exactly four top-level fields: name, a quoted list of comma-separated note-name
  labels, category, subcategory": the fields are what the top-level commas separate, so
  none of name, category and subcategory holds a comma, and the quoted list holds no
  quote.
\<close>

definition fourFieldShape :: "string \<Rightarrow> bool" where
  "fourFieldShape line \<longleftrightarrow>
     (\<exists>name' notesStr category subcategory.
        line = name' @ [comma, dquote] @ notesStr @ [dquote, comma] @ category @ [comma] @ subcategory
        \<and> name' \<noteq> [] \<and> comma \<notin> set name'
        \<and> notesStr \<noteq> [] \<and> dquote \<notin> set notesStr
        \<and> category \<noteq> [] \<and> comma \<notin> set category
        \<and> subcategory \<noteq> [] \<and> comma \<notin> set subcategory)"

text \<open>
  What one line after the header contributes to the parser's result, as the body of the
  loop computes it: the entries it adds and the lines it writes to the console, or
  \<open>None\<close> when the body does not return.
\<close>

definition lineResult :: "string \<Rightarrow> (jsval ChordData list \<times> string list) option" where
  "lineResult l =
     (let line = trim l
      in if line = [] then Some ([], [])
         else case matchLine line of
                None \<Rightarrow> Some ([], [''Could not parse line: '' @ line])
              | Some m \<Rightarrow> map_option (\<lambda>(chord, log). ([chord], log)) (makeChord m))"

text \<open>Raw catalog text from its lines, and a record line from its parts.\<close>

definition csvOf :: "string list \<Rightarrow> string" where
  "csvOf ls = concat (map (\<lambda>l. l @ [CHR 0x0A]) ls)"

definition recordLine :: "string \<Rightarrow> string \<Rightarrow> string \<Rightarrow> string" where
  "recordLine name' notesStr rest = name' @ [comma, dquote] @ notesStr @ [dquote, comma] @ rest"

definition headerLine :: string where
  "headerLine = ''Name,Notes,Type,Extension''"

definition sixNoteCatalog :: string where
  "sixNoteCatalog = csvOf [headerLine, recordLine ''X'' ''B,B,B,B,B,B'' ''Major,Triad'']"

definition fiveFieldLine :: string where
  "fiveFieldLine = recordLine ''N'' ''C'' ''T,E,X''"

definition mixedCatalog :: string where
  "mixedCatalog = csvOf [headerLine, recordLine ''C'' ''C, E,G'' ''Major,Triad'', ''Cm,C,Eb,G,Minor,Triad'',
                         [], recordLine ''G'' ''G,H,D'' ''Major,Triad'']"

section \<open>Labels that are note names or unknown\<close>

text \<open>
  A label names an inherited member when, trimmed, it is one of the keys of
  \<open>inheritedMembers\<close>. For every other label \<^verbatim>\<open>noteToMidi\<close> returns a number: the
  table's value plus 60, or 60 for a label the table does not hold.
\<close>

definition namesInheritedMember :: "string \<Rightarrow> bool" where
  "namesInheritedMember noteName = (map_of inheritedMembers (trim noteName) \<noteq> None)"

definition pitchOf :: "string \<Rightarrow> int" where
  "pitchOf noteName =
     (case map_of noteMap (trim noteName) of
        Some baseNote \<Rightarrow> baseNote + 60
      | None \<Rightarrow> 60)"

section \<open>The ranking in the words of the specification\<close>

text \<open>
  \<open>ranksBefore localeCompare q a b\<close>: the first tier that tells \<open>a\<close> and \<open>b\<close> apart
  puts \<open>a\<close> first. The tiers, in order: exact match of the lower-cased name with \<open>q\<close>;
  lower-cased name starting with \<open>q\<close>; type Major with extension Triad; shorter name;
  order of the lower-cased names under the host's \<^verbatim>\<open>localeCompare\<close>.
\<close>

definition ranksBefore :: "(string \<Rightarrow> string \<Rightarrow> int) \<Rightarrow> string \<Rightarrow> 'v ChordData \<Rightarrow> 'v ChordData \<Rightarrow> bool" where
  "ranksBefore localeCompare q a b =
     (let an = toLowerCase (name a); bn = toLowerCase (name b);
          exactA = (an = q); exactB = (bn = q);
          startsA = prefix q an; startsB = prefix q bn;
          simpleA = (type a = ''Major'' \<and> extension a = ''Triad'');
          simpleB = (type b = ''Major'' \<and> extension b = ''Triad'')
      in if exactA \<noteq> exactB then exactA
         else if startsA \<noteq> startsB then startsA
         else if simpleA \<noteq> simpleB then simpleA
         else if length an \<noteq> length bn then length an < length bn
         else localeCompare an bn < 0)"

text \<open>
  The first four tiers as one sort key, compared lexicographically: smaller is earlier.
\<close>

definition rankKey :: "string \<Rightarrow> 'v ChordData \<Rightarrow> nat list" where
  "rankKey q a =
     (let an = toLowerCase (name a)
      in [if an = q then 0 else 1,
          if prefix q an then 0 else 1,
          if type a = ''Major'' \<and> extension a = ''Triad'' then 0 else 1,
          length an])"

section \<open>Example catalogs\<close>

definition lowerNameCatalog :: string where
  "lowerNameCatalog = csvOf [headerLine, recordLine ''c'' ''C,E,G'' ''Major,Triad'',
                             recordLine ''C'' ''C,E,G'' ''Major,Triad'']"

definition spacedCatalog :: string where
  "spacedCatalog = csvOf [headerLine, recordLine ''Cm'' ''C,Eb,G'' ''Minor,Triad'',
                          recordLine ''C major'' ''C,E,G'' ''Major,Triad'']"

definition cCatalog :: string where
  "cCatalog = csvOf [headerLine, recordLine ''Cm'' ''C,Eb,G'' ''Minor,Triad'',
                     recordLine ''Csus4'' ''C,F,G'' ''Suspended,Triad'',
                     recordLine ''D'' ''D,F#,A'' ''Major,Triad'',
                     recordLine ''C'' ''C,E,G'' ''Major,Triad'']"

section \<open>Example entries\<close>

definition entryOf :: "int list \<Rightarrow> int ChordData" where
  "entryOf ms = \<lparr>name = ''X'', noteNames = [], midiNotes = ms, type = ''Major'', extension = ''Triad''\<rparr>"

section \<open>Facts about the loops\<close>

lemma inversionLoop_eq:
  "inversionLoop k numInversions rootNotes voicings =
     voicings @ map (\<lambda>k. inversion k rootNotes) [k ..< numInversions]"
proof (induction k numInversions rootNotes voicings rule: inversionLoop.induct)
  case (1 k numInversions rootNotes voicings)
  show ?case
  proof (cases "k < numInversions")
    case True
    then show ?thesis
      using "1.IH" by (subst inversionLoop.simps) (simp add: upt_conv_Cons)
  next
    case False
    then show ?thesis
      by (subst inversionLoop.simps) simp
  qed
qed

lemma calculateVoicings_eq:
  "midiNotes chord \<noteq> [] \<Longrightarrow>
   calculateVoicings chord =
     \<lparr>voicingName = ''Root'', voicingNotes = midiNotes chord\<rparr> #
     map (\<lambda>k. inversion k (midiNotes chord)) [1 ..< min (length (midiNotes chord)) 4]"
  by (simp add: calculateVoicings_def Let_def inversionLoop_eq)

lemma octaveUp_eq: "octaveUp prev x = liftAbove prev x"
proof (induction prev x rule: octaveUp.induct)
  case (1 prev n)
  show ?case
  proof (cases "n \<le> prev")
    case True
    then have le: "n \<le> prev" .
    show ?thesis
    proof (cases "n + 12 \<le> prev")
      case True
      have "(prev - n) div 12 = (prev - (n + 12)) div 12 + 1" by simp
      with True le "1.IH" show ?thesis
        by (subst octaveUp.simps) (simp add: liftAbove_def)
    next
      case False
      with le have "(prev - n) div 12 = 0" by simp
      with False le "1.IH" show ?thesis
        by (subst octaveUp.simps) (simp add: liftAbove_def)
    qed
  next
    case False
    then show ?thesis by (subst octaveUp.simps) (simp add: liftAbove_def)
  qed
qed

lemma octaveUp_gt: "prev < octaveUp prev x"
  by (induction prev x rule: octaveUp.induct) (subst octaveUp.simps, simp)

lemma octaveUp_ge: "x \<le> octaveUp prev x"
  by (induction prev x rule: octaveUp.induct) (subst octaveUp.simps, auto)

lemma octaveUp_mod: "octaveUp prev x mod 12 = x mod 12"
  by (induction prev x rule: octaveUp.induct) (subst octaveUp.simps, simp)

lemma octaveUp_least:
  "\<exists>j::nat. octaveUp prev x = x + 12 * int j \<and> (\<forall>i<j. x + 12 * int i \<le> prev)"
proof (induction prev x rule: octaveUp.induct)
  case (1 prev n)
  show ?case
  proof (cases "n \<le> prev")
    case True
    with "1.IH" obtain j :: nat where j: "octaveUp prev (n + 12) = n + 12 + 12 * int j"
      and lt: "\<forall>i<j. n + 12 + 12 * int i \<le> prev" by blast
    have "octaveUp prev n = n + 12 * int (Suc j)"
      using True j by (subst octaveUp.simps) simp
    moreover have "\<forall>i<Suc j. n + 12 * int i \<le> prev"
    proof (intro allI impI)
      fix i assume "i < Suc j"
      show "n + 12 * int i \<le> prev"
      proof (cases i)
        case 0 with True show ?thesis by simp
      next
        case (Suc i')
        with \<open>i < Suc j\<close> lt have "n + 12 + 12 * int i' \<le> prev" by simp
        with Suc show ?thesis by simp
      qed
    qed
    ultimately show ?thesis by blast
  next
    case False
    then have "octaveUp prev n = n + 12 * int 0" by (subst octaveUp.simps) simp
    then show ?thesis by blast
  qed
qed

lemma raiseLoop_length: "length (raiseLoop i k xs) = length xs"
  by (induction i k xs rule: raiseLoop.induct) (subst raiseLoop.simps, simp)

lemma raiseLoop_nth:
  "j < length xs \<Longrightarrow> raiseLoop i k xs ! j = (if i \<le> j \<and> j < k then xs ! j + 12 else xs ! j)"
proof (induction i k xs rule: raiseLoop.induct)
  case (1 i k invNotes)
  show ?case
  proof (cases "i < k")
    case True
    have step: "raiseLoop i k invNotes ! j = raiseLoop (i + 1) k (invNotes[i := invNotes ! i + 12]) ! j"
      using True by (subst raiseLoop.simps) simp
    show ?thesis
    proof (cases "j = i")
      case True
      with \<open>i < k\<close> "1.IH" [OF \<open>i < k\<close>] "1.prems" show ?thesis
        unfolding step by simp
    next
      case False
      with \<open>i < k\<close> "1.IH" [OF \<open>i < k\<close>] "1.prems" show ?thesis
        unfolding step by auto
    qed
  next
    case False
    then show ?thesis by (subst raiseLoop.simps) simp
  qed
qed

lemma raiseLoop_eq: "raiseLoop 0 k xs = raiseFirst k xs"
  by (rule nth_equalityI)
     (auto simp: raiseLoop_length raiseLoop_nth raiseFirst_def nth_append min_def)

lemma ascendLoop_eq: "ascendLoop acc rest = acc @ renormalizeFrom (last acc) rest"
  by (induction rest arbitrary: acc) (simp_all add: octaveUp_eq)

lemma mathMax_eq: "xs \<noteq> [] \<Longrightarrow> mathMax xs = Max (set xs)"
  by (cases xs) (simp_all add: Max.set_eq_fold [symmetric])

lemma renormalizeFrom_length: "length (renormalizeFrom prev xs) = length xs"
  by (induction xs arbitrary: prev) simp_all

lemma renormalize_length: "length (renormalize xs) = length xs"
  by (cases xs) (simp_all add: renormalizeFrom_length)

lemma liftAbove_gt: "prev < liftAbove prev x"
  using octaveUp_gt [of prev x] by (simp add: octaveUp_eq)

lemma liftAbove_mod: "liftAbove prev x mod 12 = x mod 12"
  using octaveUp_mod [of prev x] by (simp add: octaveUp_eq)

lemma renormalizeFrom_sorted: "sorted_wrt (<) (prev # renormalizeFrom prev xs)"
proof (induction xs arbitrary: prev)
  case Nil
  show ?case by simp
next
  case (Cons x xs)
  have "sorted_wrt (<) (liftAbove prev x # renormalizeFrom (liftAbove prev x) xs)"
    by (rule Cons.IH)
  with liftAbove_gt [of prev x] show ?case
    by (auto simp del: sorted_wrt.simps simp add: sorted_wrt2)
qed

lemma renormalize_sorted: "sorted_wrt (<) (renormalize xs)"
proof (cases xs)
  case Nil
  then show ?thesis by simp
next
  case (Cons y ys)
  then show ?thesis using renormalizeFrom_sorted [of y ys] by simp
qed

lemma renormalizeFrom_mod:
  "map (\<lambda>x. x mod 12) (renormalizeFrom prev xs) = map (\<lambda>x. x mod 12) xs"
  by (induction xs arbitrary: prev) (simp_all add: liftAbove_mod)

lemma renormalize_mod: "map (\<lambda>x. x mod 12) (renormalize xs) = map (\<lambda>x. x mod 12) xs"
  by (cases xs) (simp_all add: renormalizeFrom_mod)

lemma inversion_eq:
  assumes "k < length rootNotes"
  shows "inversion k rootNotes =
           \<lparr>voicingName = inversionName k,
            voicingNotes = rangePolicy (renormalize (rotateLeft k (raiseFirst k rootNotes)))\<rparr>"
proof -
  let ?rot = "rotateLeft k (raiseFirst k rootNotes)"
  from assms have ne: "?rot \<noteq> []" by (simp add: rotateLeft_def raiseFirst_def)
  have sorted_eq: "(case ?rot of [] \<Rightarrow> [] | first # rest \<Rightarrow> ascendLoop [first] rest) = renormalize ?rot"
    by (cases ?rot) (simp_all add: ascendLoop_eq)
  from ne have ne': "renormalize ?rot \<noteq> []" by (cases ?rot) simp_all
  show ?thesis
    unfolding inversion_def raiseLoop_eq Let_def
    using sorted_eq ne'
    by (simp add: rotateLeft_def [symmetric] mathMax_eq rangePolicy_def KEYBOARD_MAX_def)
qed


lemma rangePolicy_length: "length (rangePolicy s) = length s"
  by (simp add: rangePolicy_def)

lemma rangePolicy_sorted: "sorted_wrt (<) s \<Longrightarrow> sorted_wrt (<) (rangePolicy s)"
  by (simp add: rangePolicy_def sorted_wrt_map)

lemma rangePolicy_mod: "map (\<lambda>x. x mod 12) (rangePolicy s) = map (\<lambda>x. x mod 12) s"
proof -
  have "(x - 12) mod 12 = x mod 12" for x :: int
    using mod_diff_right_eq [of x 12 12] by simp
  then show ?thesis by (simp add: rangePolicy_def)
qed

lemma rotate_raise_length: "length (rotateLeft k (raiseFirst k xs)) = length xs"
  by (simp add: rotateLeft_def raiseFirst_def)

lemma rotate_raise_mod:
  "mset (map (\<lambda>x. x mod 12) (rotateLeft k (raiseFirst k xs))) = mset (map (\<lambda>x. x mod 12) xs)"
proof -
  have add12: "(x + 12) mod 12 = x mod 12" for x :: int by simp
  have "map (\<lambda>x. x mod 12) (raiseFirst k xs) = map (\<lambda>x. x mod 12) (take k xs) @ map (\<lambda>x. x mod 12) (drop k xs)"
    unfolding raiseFirst_def by (simp add: add12 comp_def)
  also have "\<dots> = map (\<lambda>x. x mod 12) (take k xs @ drop k xs)"
    by (simp only: map_append)
  also have "\<dots> = map (\<lambda>x. x mod 12) xs"
    by (simp only: append_take_drop_id)
  finally have raised: "map (\<lambda>x. x mod 12) (raiseFirst k xs) = map (\<lambda>x. x mod 12) xs" .
  have "mset (rotateLeft k ys) = mset ys" for ys :: "int list"
    unfolding rotateLeft_def by (metis append_take_drop_id mset_append union_commute)
  then have "mset (map (\<lambda>x. x mod 12) (rotateLeft k ys)) = mset (map (\<lambda>x. x mod 12) ys)" for ys
    by (metis mset_map)
  then show ?thesis by (simp only: raised)
qed

lemma calculateVoicings_nth:
  assumes "1 \<le> k" "k < min (length (midiNotes chord)) 4"
  shows "calculateVoicings chord ! k = inversion k (midiNotes chord)"
proof -
  from assms have ne: "midiNotes chord \<noteq> []" by auto
  from assms obtain k' where k: "k = Suc k'" by (cases k) auto
  with assms have "k' < min (length (midiNotes chord)) 4 - 1" by (auto simp: min_def)
  moreover from assms k have "1 + k' < min (length (midiNotes chord)) 4" by simp
  then have "[1 ..< min (length (midiNotes chord)) 4] ! k' = 1 + k'"
    by (rule nth_upt)
  ultimately have "[1 ..< min (length (midiNotes chord)) 4] ! k' = Suc k'" by simp
  with \<open>k' < min (length (midiNotes chord)) 4 - 1\<close> show ?thesis
    by (simp add: calculateVoicings_eq [OF ne] k)
qed

lemma calculateVoicings_set:
  assumes "midiNotes chord \<noteq> []"
  shows "set (calculateVoicings chord) =
     insert \<lparr>voicingName = ''Root'', voicingNotes = midiNotes chord\<rparr>
       ((\<lambda>k. inversion k (midiNotes chord)) ` {1 ..< min (length (midiNotes chord)) 4})"
  by (simp add: calculateVoicings_eq [OF assms])

section \<open>Facts about the pitch assignment\<close>

lemma renormalizeFrom_nth:
  "i < length xs \<Longrightarrow>
   renormalizeFrom prev xs ! i = liftAbove ((prev # renormalizeFrom prev xs) ! i) (xs ! i)"
proof (induction xs arbitrary: prev i)
  case Nil
  then show ?case by simp
next
  case (Cons x xs)
  show ?case
  proof (cases i)
    case 0
    then show ?thesis by simp
  next
    case (Suc i')
    with Cons.prems have "i' < length xs" by simp
    from Cons.IH [OF this, of "liftAbove prev x"] Suc show ?thesis by simp
  qed
qed

lemma renormalize_nth_0: "xs \<noteq> [] \<Longrightarrow> renormalize xs ! 0 = xs ! 0"
  by (cases xs) simp_all

lemma renormalize_nth_Suc:
  "Suc i < length xs \<Longrightarrow> renormalize xs ! Suc i = liftAbove (renormalize xs ! i) (xs ! Suc i)"
  by (cases xs) (simp_all add: renormalizeFrom_nth)

lemma liftAbove_upper: "liftAbove prev x \<le> max x (prev + 12)"
proof (cases "x \<le> prev")
  case True
  then have "12 * ((prev - x) div 12) \<le> prev - x" by simp
  with True show ?thesis by (simp add: liftAbove_def)
next
  case False
  then show ?thesis by (simp add: liftAbove_def)
qed

lemma liftAbove_lower: "x \<le> liftAbove prev x"
  using octaveUp_ge [of x prev] by (simp add: octaveUp_eq)

lemma renormalize_bounds:
  assumes "\<forall>x \<in> set xs. 60 \<le> x \<and> x \<le> 71"
  shows "i < length xs \<Longrightarrow> 60 \<le> renormalize xs ! i \<and> renormalize xs ! i \<le> 71 + 12 * int i"
proof (induction i)
  case 0
  then have "xs \<noteq> []" by auto
  with assms 0 show ?case by (simp add: renormalize_nth_0)
next
  case (Suc i)
  then have IH: "renormalize xs ! i \<le> 71 + 12 * int i" by simp
  from Suc.prems assms have x: "60 \<le> xs ! Suc i" "xs ! Suc i \<le> 71" by simp_all
  have "renormalize xs ! Suc i = liftAbove (renormalize xs ! i) (xs ! Suc i)"
    using Suc.prems by (rule renormalize_nth_Suc)
  with liftAbove_upper [of "renormalize xs ! i" "xs ! Suc i"]
       liftAbove_lower [of "xs ! Suc i" "renormalize xs ! i"] IH x
  show ?case by simp
qed

lemma noteMap_range: "map_of noteMap s = Some b \<Longrightarrow> 0 \<le> b \<and> b \<le> 11"
  by (auto simp: noteMap_def split: if_splits)

lemma pitchOf_range: "60 \<le> pitchOf s \<and> pitchOf s \<le> 71"
  using noteMap_range [of "trim s"]
  by (auto simp: pitchOf_def split: option.splits)

lemma noteMap_not_inherited: "map_of noteMap s = Some b \<Longrightarrow> map_of inheritedMembers s = None"
  by (auto simp: noteMap_def inheritedMembers_def split: if_splits)

text \<open>
  A string that \<^verbatim>\<open>noteToMidi\<close> returns is the text of an inherited member followed
  by "60"; it begins with the letter f or with an opening bracket, and so does every
  string the loop makes of it. No such string is a numeral.
\<close>

lemma noteToMidi_Str:
  assumes "noteToMidi l = Str s"
  shows "\<exists>text. s = text @ ''60'' \<and> (hd text = CHR ''f'' \<or> hd text = CHR 0x5B)"
proof -
  from assms obtain mtext
    where found: "map_of inheritedMembers (trim l) = Some mtext"
      and shape: "s = mtext @ ''60''"
    by (auto simp: noteToMidi_def Let_def split: option.splits)
  from found have "hd mtext = CHR ''f'' \<or> hd mtext = CHR 0x5B"
    by (auto simp: inheritedMembers_def split: if_splits)
  with shape show ?thesis by blast
qed

lemma noteToMidi_Num: "\<not> namesInheritedMember l \<Longrightarrow> noteToMidi l = Num (pitchOf l)"
  by (simp add: namesInheritedMember_def noteToMidi_def pitchOf_def Let_def split: option.splits)

lemma octaveUpVal_Num: "octaveUpVal (Num prev) (Num n) = Some (Num (octaveUp prev n))"
proof (induction prev n rule: octaveUp.induct)
  case (1 prev n)
  show ?case
  proof (cases "n \<le> prev")
    case True
    with "1.IH" show ?thesis
      by (subst octaveUpVal.simps, subst octaveUp.simps) simp
  next
    case False
    then show ?thesis
      by (subst octaveUpVal.simps, subst octaveUp.simps) simp
  qed
qed

lemma convertLoop_Num:
  assumes "\<forall>l \<in> set rest. \<not> namesInheritedMember l" and "acc \<noteq> []"
  shows "convertLoop (map Num acc) rest =
           Some (map Num (acc @ renormalizeFrom (last acc) (map pitchOf rest)))"
  using assms
proof (induction rest arbitrary: acc)
  case Nil
  then show ?case by simp
next
  case (Cons l rest)
  from Cons.prems have l: "noteToMidi l = Num (pitchOf l)" by (simp add: noteToMidi_Num)
  from Cons.prems have last: "last (map Num acc) = Num (last acc)" by (simp add: last_map)
  have step: "convertLoop (map Num acc) (l # rest) =
                convertLoop (map Num (acc @ [octaveUp (last acc) (pitchOf l)])) rest"
    by (simp add: l last octaveUpVal_Num)
  from Cons.prems have "\<forall>l \<in> set rest. \<not> namesInheritedMember l" by simp
  from Cons.IH [OF this, of "acc @ [octaveUp (last acc) (pitchOf l)]"]
  show ?case unfolding step by (simp add: octaveUp_eq)
qed

lemma convertChordNotesToMidi_Num:
  assumes "\<forall>l \<in> set labels. \<not> namesInheritedMember l"
  shows "convertChordNotesToMidi labels = Some (map Num (renormalize (map pitchOf labels)))"
proof (cases labels)
  case Nil
  then show ?thesis by (simp add: convertChordNotesToMidi_def)
next
  case (Cons root rest)
  with assms have root: "noteToMidi root = Num (pitchOf root)"
    and rest: "\<forall>l \<in> set rest. \<not> namesInheritedMember l"
    by (simp_all add: noteToMidi_Num)
  from convertLoop_Num [OF rest, of "[pitchOf root]"] Cons root show ?thesis
    by (simp add: convertChordNotesToMidi_def)
qed

text \<open>
  On two strings the loop need not end: when the new value lies below the previous one
  at a position inside both, appending digits never lifts it above.
\<close>

lemma lessEqStr_below:
  "(of_char a :: nat) < of_char b \<Longrightarrow> lessEqStr (p @ a # s) (p @ b # t)"
  by (induction p) simp_all

lemma octaveUpVal_stuck:
  assumes "(of_char a :: nat) < of_char b"
  shows "octaveUpVal (Str (p @ b # t)) (Str (p @ a # s)) = None"
proof (rule ccontr)
  assume "octaveUpVal (Str (p @ b # t)) (Str (p @ a # s)) \<noteq> None"
  then obtain y where y: "octaveUpVal (Str (p @ b # t)) (Str (p @ a # s)) = Some y" by auto
  have "\<forall>s'. \<not> (Str (p @ b # t) = Str (p @ b # t) \<and> Str (p @ a # s) = Str (p @ a # s'))"
  proof (rule octaveUpVal.raw_induct
           [where P = "\<lambda>prev n r. \<forall>s'. \<not> (prev = Str (p @ b # t) \<and> n = Str (p @ a # s'))", OF _ y])
    fix f :: "jsval \<Rightarrow> jsval \<Rightarrow> jsval option" and prev n r
    assume IH: "\<And>n' b' r'. f n' b' = Some r' \<Longrightarrow>
                   \<forall>s'. \<not> (n' = Str (p @ b # t) \<and> b' = Str (p @ a # s'))"
      and eq: "(if lessEq n prev then f prev (plus12 n) else Some n) = Some r"
    show "\<forall>s'. \<not> (prev = Str (p @ b # t) \<and> n = Str (p @ a # s'))"
    proof (intro allI notI)
      fix s' assume here: "prev = Str (p @ b # t) \<and> n = Str (p @ a # s')"
      with assms have "lessEq n prev" by (simp add: lessEqStr_below)
      with eq have "f prev (plus12 n) = Some r" by simp
      from IH [OF this] here show False by simp
    qed
  qed
  then show False by blast
qed

lemma convert_toString_constructor:
  "convertChordNotesToMidi [''toString'', ''constructor''] = None"
proof -
  have "octaveUpVal (Str (''function '' @ CHR ''t'' # ''oString() { [native code] }60''))
          (Str (''function '' @ CHR ''O'' # ''bject() { [native code] }60'')) = None"
    by (rule octaveUpVal_stuck) simp
  then show ?thesis
    by (simp add: convertChordNotesToMidi_def noteToMidi_def noteMap_def inheritedMembers_def
          trim_def isWhiteSpace_def)
qed

section \<open>Facts about the parser\<close>

lemma split_at_iff:
  "(takeWhile (\<lambda>c. c \<noteq> d) xs = g \<and> dropWhile (\<lambda>c. c \<noteq> d) xs = d # r) \<longleftrightarrow> (xs = g @ d # r \<and> d \<notin> set g)"
proof
  assume a: "takeWhile (\<lambda>c. c \<noteq> d) xs = g \<and> dropWhile (\<lambda>c. c \<noteq> d) xs = d # r"
  have "xs = takeWhile (\<lambda>c. c \<noteq> d) xs @ dropWhile (\<lambda>c. c \<noteq> d) xs" by simp
  with a have "xs = g @ d # r" by simp
  moreover from a have "d \<notin> set g" using set_takeWhileD [of d "\<lambda>c. c \<noteq> d" xs] by auto
  ultimately show "xs = g @ d # r \<and> d \<notin> set g" by simp
next
  assume a: "xs = g @ d # r \<and> d \<notin> set g"
  then have "\<And>x. x \<in> set g \<Longrightarrow> x \<noteq> d" by auto
  with a show "takeWhile (\<lambda>c. c \<noteq> d) xs = g \<and> dropWhile (\<lambda>c. c \<noteq> d) xs = d # r"
    by (simp add: takeWhile_append2 dropWhile_append2)
qed

lemma dropWhile_head: "dropWhile (\<lambda>c. c \<noteq> d) xs = c # r \<Longrightarrow> c = d"
  using hd_dropWhile [of "\<lambda>c. c \<noteq> d" xs] by auto

lemma matchLine_complete:
  assumes "patternShape line g1 g2 g3 g4"
  shows "matchLine line = Some (g1, g2, g3, g4)"
proof -
  from assms have line: "line = g1 @ comma # (dquote # g2 @ dquote # comma # g3 @ comma # g4)"
    and g1: "g1 \<noteq> []" "comma \<notin> set g1"
    and g2: "g2 \<noteq> []" "dquote \<notin> set g2"
    and g3: "g3 \<noteq> []" "comma \<notin> set g3"
    and g4: "g4 \<noteq> []" "\<not> list_ex isLineTerminator g4"
    by (simp_all add: patternShape_def)
  have s1: "takeWhile (\<lambda>c. c \<noteq> comma) line = g1"
    "dropWhile (\<lambda>c. c \<noteq> comma) line = comma # (dquote # g2 @ dquote # comma # g3 @ comma # g4)"
    using split_at_iff [of comma line g1] line g1 by blast+
  have s2: "takeWhile (\<lambda>c. c \<noteq> dquote) (g2 @ dquote # comma # g3 @ comma # g4) = g2"
    "dropWhile (\<lambda>c. c \<noteq> dquote) (g2 @ dquote # comma # g3 @ comma # g4) = dquote # (comma # g3 @ comma # g4)"
    using split_at_iff [of dquote "g2 @ dquote # comma # g3 @ comma # g4" g2] g2 by blast+
  have s3: "takeWhile (\<lambda>c. c \<noteq> comma) (g3 @ comma # g4) = g3"
    "dropWhile (\<lambda>c. c \<noteq> comma) (g3 @ comma # g4) = comma # g4"
    using split_at_iff [of comma "g3 @ comma # g4" g3] g3 by blast+
  show ?thesis
    unfolding matchLine_def Let_def s1
    using g1 g2 g3 g4 by (simp add: s2 s3)
qed

lemma matchLine_sound:
  assumes "matchLine line = Some (g1, g2, g3, g4)"
  shows "patternShape line g1 g2 g3 g4"
proof -
  let ?P = "\<lambda>c. c \<noteq> comma" and ?Q = "\<lambda>c. c \<noteq> dquote"
  from assms have g1: "g1 = takeWhile ?P line" "g1 \<noteq> []"
    by (auto simp: matchLine_def Let_def split: if_splits list.splits)
  from assms obtain c1 q1 r2 where r1: "dropWhile ?P line = c1 # q1 # r2"
    by (auto simp: matchLine_def Let_def split: if_splits list.splits)
  from dropWhile_head [OF r1] have c1: "c1 = comma" .
  from assms r1 have q1: "q1 = dquote"
    by (auto simp: matchLine_def Let_def split: if_splits list.splits)
  from assms r1 have g2: "g2 = takeWhile ?Q r2" "g2 \<noteq> []"
    by (auto simp: matchLine_def Let_def split: if_splits list.splits)
  from assms r1 obtain q2 c2 r4 where r3: "dropWhile ?Q r2 = q2 # c2 # r4"
    by (auto simp: matchLine_def Let_def split: if_splits list.splits)
  from dropWhile_head [OF r3] have q2: "q2 = dquote" .
  from assms r1 r3 have c2: "c2 = comma"
    by (auto simp: matchLine_def Let_def split: if_splits list.splits)
  from assms r1 r3 have g3: "g3 = takeWhile ?P r4" "g3 \<noteq> []"
    by (auto simp: matchLine_def Let_def split: if_splits list.splits)
  from assms r1 r3 obtain c3 where r5: "dropWhile ?P r4 = c3 # g4"
    and g4: "g4 \<noteq> []" "\<not> list_ex isLineTerminator g4"
    by (auto simp: matchLine_def Let_def split: if_splits list.splits)
  from dropWhile_head [OF r5] have c3: "c3 = comma" .
  have l1: "line = g1 @ comma # dquote # r2 \<and> comma \<notin> set g1"
    using split_at_iff [of comma line g1 "dquote # r2"] g1 r1 c1 q1 by simp
  have l2: "r2 = g2 @ dquote # comma # r4 \<and> dquote \<notin> set g2"
    using split_at_iff [of dquote r2 g2 "comma # r4"] g2 r3 q2 c2 by simp
  have l3: "r4 = g3 @ comma # g4 \<and> comma \<notin> set g3"
    using split_at_iff [of comma r4 g3 g4] g3 r5 c3 by simp
  have "line = g1 @ [comma, dquote] @ g2 @ [dquote, comma] @ g3 @ [comma] @ g4"
    using l1 l2 l3 by simp
  with l1 l2 l3 g1 g2 g3 g4 show ?thesis
    unfolding patternShape_def by blast
qed

lemma matchLine_iff:
  "matchLine line = Some (g1, g2, g3, g4) \<longleftrightarrow> patternShape line g1 g2 g3 g4"
  using matchLine_complete matchLine_sound by blast

lemma matchLine_Some_iff:
  "matchLine line \<noteq> None \<longleftrightarrow> (\<exists>g1 g2 g3 g4. patternShape line g1 g2 g3 g4)"
proof
  assume "matchLine line \<noteq> None"
  then obtain m where "matchLine line = Some m" by auto
  then show "\<exists>g1 g2 g3 g4. patternShape line g1 g2 g3 g4"
    by (cases m) (auto simp: matchLine_iff)
next
  assume "\<exists>g1 g2 g3 g4. patternShape line g1 g2 g3 g4"
  then show "matchLine line \<noteq> None" by (auto simp: matchLine_iff [symmetric])
qed

lemma parseLoop_eq:
  "parseLoop ls (chords, warnings) =
     (case those (map lineResult ls) of
        None \<Rightarrow> None
      | Some rs \<Rightarrow> Some (chords @ concat (map fst rs), warnings @ concat (map snd rs)))"
proof (induction ls arbitrary: chords warnings)
  case Nil
  show ?case by simp
next
  case (Cons l ls)
  show ?case
  proof (cases "trim l = []")
    case True
    then have "lineResult l = Some ([], [])" by (simp add: lineResult_def)
    with True Cons.IH [of chords warnings] show ?thesis
      by (simp split: option.splits)
  next
    case False
    note nonblank = this
    show ?thesis
    proof (cases "matchLine (trim l)")
      case None
      with nonblank have "lineResult l = Some ([], [''Could not parse line: '' @ trim l])"
        by (simp add: lineResult_def)
      with nonblank None Cons.IH [of chords "warnings @ [''Could not parse line: '' @ trim l]"]
      show ?thesis by (simp split: option.splits)
    next
      case (Some m)
      show ?thesis
      proof (cases "makeChord m")
        case None
        with nonblank Some have "lineResult l = None" by (simp add: lineResult_def)
        with nonblank Some None show ?thesis by simp
      next
        case made: (Some r)
        obtain chord log where r: "r = (chord, log)" by (cases r)
        with nonblank Some made have "lineResult l = Some ([chord], log)"
          by (simp add: lineResult_def)
        with nonblank Some made r Cons.IH [of "chords @ [chord]" "warnings @ log"]
        show ?thesis by (simp split: option.splits)
      qed
    qed
  qed
qed

lemma parseCsvText_eq:
  "parseCsvText text =
     (case those (map lineResult (drop 1 (split (CHR 0x0A) (trim text)))) of
        None \<Rightarrow> None
      | Some rs \<Rightarrow> Some (concat (map fst rs), concat (map snd rs)))"
  by (simp add: parseCsvText_def Let_def parseLoop_eq cong: option.case_cong)

text \<open>
  The load returns whenever no note label of a matching line names an inherited member.
\<close>

lemma makeChord_returns:
  assumes "\<forall>lab \<in> set (map trim (split comma g2)). \<not> namesInheritedMember lab"
  shows "makeChord (g1, g2, g3, g4) \<noteq> None"
  using convertChordNotesToMidi_Num [OF assms]
  by (simp add: makeChord_def Let_def)

lemma those_returns: "(\<forall>x \<in> set xs. x \<noteq> None) \<Longrightarrow> those xs \<noteq> None"
  by (induction xs) (auto split: option.splits)

lemma parseCsvText_returns:
  assumes "\<And>l g1 g2 g3 g4 lab.
             l \<in> set (drop 1 (split (CHR 0x0A) (trim text))) \<Longrightarrow>
             matchLine (trim l) = Some (g1, g2, g3, g4) \<Longrightarrow>
             lab \<in> set (map trim (split comma g2)) \<Longrightarrow> \<not> namesInheritedMember lab"
  shows "parseCsvText text \<noteq> None"
proof -
  have "lineResult l \<noteq> None" if l: "l \<in> set (drop 1 (split (CHR 0x0A) (trim text)))" for l
  proof (cases "matchLine (trim l)")
    case None
    then show ?thesis by (simp add: lineResult_def Let_def)
  next
    case (Some m)
    obtain g1 g2 g3 g4 where m: "m = (g1, g2, g3, g4)" by (cases m)
    from assms [OF l] Some m
    have "\<forall>lab \<in> set (map trim (split comma g2)). \<not> namesInheritedMember lab" by blast
    from makeChord_returns [OF this, of g1 g3 g4] Some m show ?thesis
      by (auto simp: lineResult_def Let_def)
  qed
  then have "those (map lineResult (drop 1 (split (CHR 0x0A) (trim text)))) \<noteq> None"
    by (intro those_returns) auto
  then show ?thesis by (auto simp: parseCsvText_eq)
qed

text \<open>
  A record whose first note label names an inherited member: the value stored first is a
  string.
\<close>

lemma constructor_line:
  "map_option (\<lambda>r. map midiNotes (fst r))
     (parseCsvText (csvOf [headerLine, recordLine ''P'' ''constructor,C'' ''Major,Triad'']))
     = Some [[Str ''function Object() { [native code] }60'', Num 60]]"
  by (simp add: parseCsvText_def csvOf_def recordLine_def headerLine_def trim_def isWhiteSpace_def
        matchLine_def comma_def dquote_def isLineTerminator_def makeChord_def
        convertChordNotesToMidi_def noteToMidi_def noteToMidiLog_def noteMap_def
        inheritedMembers_def octaveUpVal.simps Let_def)

lemmas eval_defs = parseCsvText_def csvOf_def recordLine_def headerLine_def trim_def isWhiteSpace_def
  matchLine_def comma_def dquote_def isLineTerminator_def makeChord_def
  convertChordNotesToMidi_def noteToMidi_def noteToMidiLog_def noteMap_def inheritedMembers_def
  octaveUpVal.simps Let_def

section \<open>Facts about the search\<close>

lemma codeUnitCompare_le: "codeUnitCompare a b \<le> 0 \<longleftrightarrow> (map of_char a :: nat list) \<le> map of_char b"
  by (induction a b rule: codeUnitCompare.induct) auto

lemma codeUnitCompare_less: "codeUnitCompare a b < 0 \<longleftrightarrow> (map of_char a :: nat list) < map of_char b"
  by (induction a b rule: codeUnitCompare.induct) auto

lemma codeUnitCompare_greater: "codeUnitCompare a b > 0 \<longleftrightarrow> (map of_char b :: nat list) < map of_char a"
  by (induction a b rule: codeUnitCompare.induct) auto

lemma codeUnitCompare_consistent: "consistentComparator codeUnitCompare"
  unfolding consistentComparator_def
  by (auto simp: codeUnitCompare_le codeUnitCompare_less codeUnitCompare_greater)

lemma consistent_sign: "consistentComparator cmp \<Longrightarrow> (cmp a b < 0) = (cmp b a > 0)"
  by (simp add: consistentComparator_def)

lemma consistent_trans:
  "consistentComparator cmp \<Longrightarrow> cmp a b \<le> 0 \<Longrightarrow> cmp b c \<le> 0 \<Longrightarrow> cmp a c \<le> 0"
  unfolding consistentComparator_def by blast

lemma consistent_total: "consistentComparator cmp \<Longrightarrow> cmp a b \<le> 0 \<or> cmp b a \<le> 0"
  using consistent_sign [of cmp b a] by fastforce

lemma tiers_le:
  fixes la lb :: nat and lc :: int
  shows "(if ea \<and> \<not> eb then -1
          else if eb \<and> \<not> ea then 1
          else if sa \<and> \<not> sb then -1
          else if sb \<and> \<not> sa then 1
          else if ma \<and> \<not> mb then -1
          else if mb \<and> \<not> ma then 1
          else if la \<noteq> lb then int la - int lb
          else lc) \<le> (0::int)
     \<longleftrightarrow> [if ea then 0 else 1, if sa then 0 else 1, if ma then 0 else 1, la]
            < [if eb then 0 else 1, if sb then 0 else 1, if mb then 0 else 1, lb]
          \<or> ([if ea then 0 else 1, if sa then 0 else 1, if ma then 0 else 1, la]
               = [if eb then 0 else 1, if sb then 0 else 1, if mb then 0 else (1::nat), lb]
             \<and> lc \<le> 0)"
  by (cases ea; cases eb; cases sa; cases sb; cases ma; cases mb) auto

lemma tiers_less:
  fixes la lb :: nat and lc :: int
  shows "(if ea \<and> \<not> eb then -1
          else if eb \<and> \<not> ea then 1
          else if sa \<and> \<not> sb then -1
          else if sb \<and> \<not> sa then 1
          else if ma \<and> \<not> mb then -1
          else if mb \<and> \<not> ma then 1
          else if la \<noteq> lb then int la - int lb
          else lc) < (0::int)
     \<longleftrightarrow> (if ea \<noteq> eb then ea
          else if sa \<noteq> sb then sa
          else if ma \<noteq> mb then ma
          else if la \<noteq> lb then la < lb
          else lc < 0)"
  by (cases ea; cases eb; cases sa; cases sb; cases ma; cases mb) auto

lemma tiers_greater:
  fixes la lb :: nat and lc lc' :: int
  assumes "lc > 0 \<longleftrightarrow> lc' < 0"
  shows "(if ea \<and> \<not> eb then -1
          else if eb \<and> \<not> ea then 1
          else if sa \<and> \<not> sb then -1
          else if sb \<and> \<not> sa then 1
          else if ma \<and> \<not> mb then -1
          else if mb \<and> \<not> ma then 1
          else if la \<noteq> lb then int la - int lb
          else lc) > (0::int)
     \<longleftrightarrow> (if eb \<noteq> ea then eb
          else if sb \<noteq> sa then sb
          else if mb \<noteq> ma then mb
          else if lb \<noteq> la then lb < la
          else lc' < 0)"
  using assms
  by (cases ea; cases eb; cases sa; cases sb; cases ma; cases mb) auto

lemma compareChords_le_iff:
  "compareChords cmp q a b \<le> 0 \<longleftrightarrow>
     rankKey q a < rankKey q b
     \<or> (rankKey q a = rankKey q b \<and> cmp (toLowerCase (name a)) (toLowerCase (name b)) \<le> 0)"
  unfolding compareChords_def rankKey_def Let_def startsWith_def
  by (rule tiers_le)

lemma compareChords_less_iff:
  "compareChords cmp q a b < 0 \<longleftrightarrow> ranksBefore cmp q a b"
  unfolding compareChords_def ranksBefore_def Let_def startsWith_def
  by (rule tiers_less)

lemma compareChords_greater_iff:
  assumes "consistentComparator cmp"
  shows "compareChords cmp q a b > 0 \<longleftrightarrow> ranksBefore cmp q b a"
  unfolding compareChords_def ranksBefore_def Let_def startsWith_def
  by (rule tiers_greater) (simp add: consistent_sign [OF assms])

lemma compareChords_total:
  assumes "consistentComparator cmp"
  shows "compareChords cmp q a b \<le> 0 \<or> compareChords cmp q b a \<le> 0"
  using consistent_total [OF assms, of "toLowerCase (name a)" "toLowerCase (name b)"]
  unfolding compareChords_le_iff by auto

lemma compareChords_trans:
  assumes "consistentComparator cmp"
    and "compareChords cmp q a b \<le> 0" and "compareChords cmp q b c \<le> 0"
  shows "compareChords cmp q a c \<le> 0"
  using assms(2,3)
    consistent_trans [OF assms(1), of "toLowerCase (name a)" "toLowerCase (name b)" "toLowerCase (name c)"]
  unfolding compareChords_le_iff by auto

lemma insertBy_set: "set (insertBy cmp x ys) = insert x (set ys)"
  by (induction ys) auto

lemma insertBy_mset: "mset (insertBy cmp x ys) = add_mset x (mset ys)"
  by (induction ys) auto

lemma sortBy_mset: "mset (sortBy cmp xs) = mset xs"
  by (induction xs) (simp_all add: sortBy_def insertBy_mset)

lemma sortBy_set: "set (sortBy cmp xs) = set xs"
  using sortBy_mset [of cmp xs] by (metis set_mset_mset)

lemma insertBy_sorted:
  assumes total: "\<And>a b. cmp a b \<le> 0 \<or> cmp b a \<le> 0"
    and trans: "\<And>a b c. cmp a b \<le> 0 \<Longrightarrow> cmp b c \<le> 0 \<Longrightarrow> cmp a c \<le> 0"
  shows "sorted_wrt (\<lambda>a b. cmp a b \<le> 0) ys \<Longrightarrow> sorted_wrt (\<lambda>a b. cmp a b \<le> 0) (insertBy cmp x ys)"
proof (induction ys)
  case Nil
  show ?case by simp
next
  case (Cons y ys)
  show ?case
  proof (cases "cmp x y \<le> 0")
    case True
    with Cons.prems trans show ?thesis by auto
  next
    case False
    with total have "cmp y x \<le> 0" by blast
    with False Cons show ?thesis by (auto simp: insertBy_set)
  qed
qed

lemma sortBy_Cons: "sortBy cmp (x # xs) = insertBy cmp x (sortBy cmp xs)"
  by (simp add: sortBy_def)

lemma sortBy_sorted_wrt:
  assumes total: "\<And>a b. cmp a b \<le> 0 \<or> cmp b a \<le> 0"
    and trans: "\<And>a b c. cmp a b \<le> 0 \<Longrightarrow> cmp b c \<le> 0 \<Longrightarrow> cmp a c \<le> 0"
  shows "sorted_wrt (\<lambda>a b. cmp a b \<le> 0) (sortBy cmp xs)"
proof (induction xs)
  case Nil
  show ?case by (simp add: sortBy_def)
next
  case (Cons x xs)
  show ?case
    unfolding sortBy_Cons
  proof (rule insertBy_sorted)
    show "cmp a b \<le> 0 \<or> cmp b a \<le> 0" for a b by (rule total)
    show "cmp a c \<le> 0" if "cmp a b \<le> 0" "cmp b c \<le> 0" for a b c using that by (rule trans)
    show "sorted_wrt (\<lambda>a b. cmp a b \<le> 0) (sortBy cmp xs)" by (rule Cons.IH)
  qed
qed

lemma sortBy_compareChords:
  assumes "consistentComparator cmp"
  shows "sorted_wrt (\<lambda>a b. compareChords cmp q a b \<le> 0) (sortBy (compareChords cmp q) xs)"
proof (rule sortBy_sorted_wrt)
  show "compareChords cmp q a b \<le> 0 \<or> compareChords cmp q b a \<le> 0" for a b :: "'a ChordData"
    by (rule compareChords_total [OF assms])
  show "compareChords cmp q a c \<le> 0"
    if "compareChords cmp q a b \<le> 0" "compareChords cmp q b c \<le> 0" for a b c :: "'a ChordData"
    using assms that by (rule compareChords_trans)
qed

lemma sortBy_sorted:
  assumes "consistentComparator cmp"
  shows "sorted_wrt (\<lambda>a b. \<not> ranksBefore cmp q b a) (sortBy (compareChords cmp q) xs)"
  using sortBy_compareChords [OF assms]
  by (rule sorted_wrt_mono_rel [rotated])
     (simp add: compareChords_greater_iff [OF assms, symmetric])

lemma searchChords_nonblank:
  assumes "trim query \<noteq> []" and "loadChordDatabase source db = Some (chords, db')"
  shows "searchChords cmp query source db =
           Some (take 20 (sortBy (compareChords cmp (toLowerCase query))
                   (filter (\<lambda>chord. sublist (toLowerCase query) (toLowerCase (name chord))) chords)),
                 db')"
  using assms by (simp add: searchChords_def Let_def includes_str_def)

lemma toLowerChar_c: "toLowerChar x = CHR ''c'' \<Longrightarrow> x = CHR ''c'' \<or> x = CHR ''C''"
  by (auto simp: toLowerChar_def upperCaseUnits_def lowerCaseUnits_def split: if_splits)

lemma toLowerCase_c: "toLowerCase n = ''c'' \<Longrightarrow> n = ''c'' \<or> n = ''C''"
  by (cases n) (auto simp: toLowerCase_def dest: toLowerChar_c)

lemma sorted_wrt_hd:
  assumes "sorted_wrt R ys" and "y \<in> set ys"
  shows "y = hd ys \<or> R (hd ys) y"
  using assms by (cases ys) auto

lemma exact_before_inexact:
  assumes "toLowerCase (name e) = q" and "toLowerCase (name a) \<noteq> q"
  shows "compareChords cmp q a e = 1"
  using assms by (simp add: compareChords_def Let_def)

lemma exact_ranks_first:
  assumes "consistentComparator cmp" and "e \<in> set xs" and "toLowerCase (name e) = q"
  shows "sortBy (compareChords cmp q) xs \<noteq> []
       \<and> toLowerCase (name (hd (sortBy (compareChords cmp q) xs))) = q"
proof -
  let ?ys = "sortBy (compareChords cmp q) xs"
  from assms(2) have mem: "e \<in> set ?ys" by (simp add: sortBy_set)
  then have ne: "?ys \<noteq> []" by auto
  from sorted_wrt_hd [OF sortBy_compareChords [OF assms(1)] mem]
  have "e = hd ?ys \<or> compareChords cmp q (hd ?ys) e \<le> 0" .
  moreover have "compareChords cmp q (hd ?ys) e = 1" if "toLowerCase (name (hd ?ys)) \<noteq> q"
    using assms(3) that by (rule exact_before_inexact)
  ultimately have "toLowerCase (name (hd ?ys)) = q" using assms(3) by fastforce
  with ne show ?thesis by simp
qed

lemmas search_eval_defs = searchChords_def loadChordDatabase_def parseChordData_def
  toLowerCase_def toLowerChar_def upperCaseUnits_def lowerCaseUnits_def includes_str_def
  sublist_code sortBy_def compareChords_def startsWith_def

section \<open>Facts about the two voicing generators\<close>

lemma renormalizeFrom_id: "sorted_wrt (<) (prev # ys) \<Longrightarrow> renormalizeFrom prev ys = ys"
  by (induction ys arbitrary: prev) (auto simp: liftAbove_def)

lemma renormalize_id: "sorted_wrt (<) ys \<Longrightarrow> renormalize ys = ys"
  by (cases ys) (simp_all del: sorted_wrt.simps add: renormalizeFrom_id)

lemma rotate_raise_eq:
  "k \<le> length xs \<Longrightarrow>
   rotateLeft k (raiseFirst k xs) = drop k xs @ map (\<lambda>x. x + 12) (take k xs)"
  by (simp add: rotateLeft_def raiseFirst_def min_def)

lemma sorted_between:
  fixes xs :: "int list"
  assumes "sorted_wrt (<) xs" and "x \<in> set xs"
  shows "hd xs \<le> x \<and> x \<le> last xs"
proof -
  from assms(1) have s: "sorted xs" by (rule strict_sorted_imp_sorted)
  from assms(2) obtain i where i: "i < length xs" "x = xs ! i" by (auto simp: in_set_conv_nth)
  then have ne: "xs \<noteq> []" by auto
  from s i have "xs ! 0 \<le> xs ! i" by (intro sorted_nth_mono) simp_all
  moreover from s i have "xs ! i \<le> xs ! (length xs - 1)" by (intro sorted_nth_mono) simp_all
  ultimately show ?thesis using i ne by (simp add: hd_conv_nth last_conv_nth)
qed

lemma rotated_sorted:
  assumes "sorted_wrt (<) xs" and "last xs < hd xs + 12" and "k \<le> length xs"
  shows "sorted_wrt (<) (rotateLeft k (raiseFirst k xs))"
proof -
  have rot: "rotateLeft k (raiseFirst k xs) = drop k xs @ map (\<lambda>x. x + 12) (take k xs)"
    using assms(3) by (rule rotate_raise_eq)
  have "sorted_wrt (<) (drop k xs)" using assms(1) by (rule sorted_wrt_drop)
  moreover have "sorted_wrt (<) (map (\<lambda>x. x + 12) (take k xs))"
    using sorted_wrt_take [OF assms(1), of k] by (simp add: sorted_wrt_map)
  moreover have "x < y + 12" if "x \<in> set (drop k xs)" "y \<in> set (take k xs)" for x y
  proof -
    from that have "x \<in> set xs" "y \<in> set xs" by (auto dest: in_set_dropD in_set_takeD)
    with sorted_between [OF assms(1)] have "x \<le> last xs" "hd xs \<le> y" by blast+
    with assms(2) show ?thesis by simp
  qed
  ultimately show ?thesis unfolding rot by (auto simp: sorted_wrt_append)
qed

lemma sort_raiseFirst:
  assumes "sorted_wrt (<) xs" and "last xs < hd xs + 12" and "k \<le> length xs"
  shows "sort (raiseFirst k xs) = rotateLeft k (raiseFirst k xs)"
proof (rule properties_for_sort)
  show "mset (rotateLeft k (raiseFirst k xs)) = mset (raiseFirst k xs)"
    unfolding rotateLeft_def by (metis append_take_drop_id mset_append union_commute)
  show "sorted (rotateLeft k (raiseFirst k xs))"
    using rotated_sorted [OF assms] by (rule strict_sorted_imp_sorted)
qed

lemma rotated_within_keyboard:
  assumes "sorted_wrt (<) xs" and "last xs < hd xs + 12"
    and "1 \<le> k" and "k < length xs"
    and "\<forall>i<k. xs ! i \<le> 71"
  shows "\<not> Max (set (rotateLeft k (raiseFirst k xs))) > 83"
proof -
  have rot: "rotateLeft k (raiseFirst k xs) = drop k xs @ map (\<lambda>x. x + 12) (take k xs)"
    using assms(4) by (simp add: rotate_raise_eq)
  from assms(3,4) have ne: "xs \<noteq> []" by auto
  from assms(3,5) have "xs ! 0 \<le> 71" by simp
  with ne have hd: "hd xs \<le> 71" by (simp add: hd_conv_nth)
  have "x \<le> 83" if "x \<in> set (rotateLeft k (raiseFirst k xs))" for x
  proof -
    from that consider (low) "x \<in> set (drop k xs)" | (high) y where "y \<in> set (take k xs)" "x = y + 12"
      unfolding rot by auto
    then show ?thesis
    proof cases
      case low
      then have "x \<in> set xs" by (rule in_set_dropD)
      with sorted_between [OF assms(1)] have "x \<le> last xs" by blast
      with assms(2) hd show ?thesis by simp
    next
      case high
      then obtain i where "i < length (take k xs)" "y = take k xs ! i"
        by (auto simp: in_set_conv_nth)
      with assms(4) have "i < k" "y = xs ! i" by simp_all
      with assms(5) high show ?thesis by simp
    qed
  qed
  moreover from assms(4) have "set (rotateLeft k (raiseFirst k xs)) \<noteq> {}"
    by (simp add: rot)
  ultimately show ?thesis by (simp add: not_less)
qed

lemma inversion_plain:
  assumes "sorted_wrt (<) xs" and "last xs < hd xs + 12"
    and "1 \<le> k" and "k < length xs"
    and "\<forall>i<k. xs ! i \<le> 71"
  shows "inversion k xs = \<lparr>voicingName = inversionName k, voicingNotes = sort (raiseFirst k xs)\<rparr>"
proof -
  from assms(4) have le: "k \<le> length xs" by simp
  have "renormalize (rotateLeft k (raiseFirst k xs)) = rotateLeft k (raiseFirst k xs)"
    using rotated_sorted [OF assms(1,2) le] by (rule renormalize_id)
  moreover have "rangePolicy (rotateLeft k (raiseFirst k xs)) = rotateLeft k (raiseFirst k xs)"
    using rotated_within_keyboard [OF assms] by (simp add: rangePolicy_def)
  ultimately show ?thesis
    by (simp add: inversion_eq [OF assms(4)] sort_raiseFirst [OF assms(1,2) le])
qed

lemma sortBased_eq:
  assumes "midiNotes chord \<noteq> []" and "sorted_wrt (<) (midiNotes chord)"
  shows "calculateVoicings_sortBased chord =
           \<lparr>voicingName = ''Root'', voicingNotes = midiNotes chord\<rparr> #
           (if length (midiNotes chord) > 1
            then [\<lparr>voicingName = ''1st Inv'', voicingNotes = sort (raiseFirst 1 (midiNotes chord))\<rparr>]
            else []) @
           (if length (midiNotes chord) > 2
            then [\<lparr>voicingName = ''2nd Inv'', voicingNotes = sort (raiseFirst 2 (midiNotes chord))\<rparr>]
            else [])"
proof -
  let ?xs = "midiNotes chord"
  from assms(2) have id: "sort ?xs = ?xs"
    by (intro sorted_sort_id strict_sorted_imp_sorted)
  have r1: "?xs[0 := ?xs ! 0 + 12] = raiseFirst 1 ?xs"
    using assms(1) by (cases ?xs) (simp_all add: raiseFirst_def)
  have r2: "(raiseFirst 1 ?xs)[1 := raiseFirst 1 ?xs ! 1 + 12] = raiseFirst 2 ?xs"
    if "length ?xs > 2"
  proof -
    from that obtain a b rest where "?xs = a # b # rest"
      by (cases ?xs; cases "tl ?xs") auto
    then show ?thesis by (simp add: raiseFirst_def numeral_2_eq_2)
  qed
  show ?thesis
  proof (cases "length ?xs > 2")
    case True
    with r2 show ?thesis
      unfolding calculateVoicings_sortBased_def Let_def id r1 using assms(1) by simp
  next
    case False
    then show ?thesis
      unfolding calculateVoicings_sortBased_def Let_def id r1 using assms(1) by simp
  qed
qed

lemma take3_voicings:
  assumes "midiNotes chord \<noteq> []"
  shows "take 3 (calculateVoicings chord) =
           \<lparr>voicingName = ''Root'', voicingNotes = midiNotes chord\<rparr> #
           (if length (midiNotes chord) > 1 then [inversion 1 (midiNotes chord)] else []) @
           (if length (midiNotes chord) > 2 then [inversion 2 (midiNotes chord)] else [])"
proof -
  let ?n = "length (midiNotes chord)"
  from assms have "?n \<ge> 1" by (cases "midiNotes chord") simp_all
  then have "?n = 1 \<or> ?n = 2 \<or> ?n = 3 \<or> ?n \<ge> 4" by arith
  then consider "?n = 1" | "?n = 2" | "?n = 3" | "?n \<ge> 4" by blast
  then show ?thesis
  proof cases
    case 1
    then show ?thesis by (simp add: calculateVoicings_eq [OF assms])
  next
    case 2
    then have "[1 ..< min ?n 4] = [1]" by (simp add: upt_rec)
    with 2 show ?thesis by (simp add: calculateVoicings_eq [OF assms])
  next
    case 3
    then have "[1 ..< min ?n 4] = [1, 2]" by (simp add: upt_rec)
    with 3 show ?thesis by (simp add: calculateVoicings_eq [OF assms])
  next
    case 4
    then have "[1 ..< min ?n 4] = [1, 2, 3]" by (simp add: upt_rec min_def)
    with 4 show ?thesis by (simp add: calculateVoicings_eq [OF assms])
  qed
qed

text \<open>
  Beyond the range shift, the two generators also part on entries of four or more notes
  (the sort-based one has no third inversion) and on entries that span an octave or more.
\<close>

lemma four_note_divergence:
  "length (calculateVoicings (entryOf [60, 64, 67, 70])) = 4
   \<and> length (calculateVoicings_sortBased (entryOf [60, 64, 67, 70])) = 3"
  by (simp add: entryOf_def calculateVoicings_def inversionLoop.simps calculateVoicings_sortBased_def Let_def)

lemma wide_span_divergence:
  "voicingNotes (calculateVoicings (entryOf [60, 80]) ! 1) = [68, 72]
   \<and> voicingNotes (calculateVoicings_sortBased (entryOf [60, 80]) ! 1) = [72, 80]"
  by (simp add: entryOf_def calculateVoicings_def inversionLoop.simps inversion_def
        raiseLoop.simps octaveUp.simps KEYBOARD_MAX_def inversionName_def
        calculateVoicings_sortBased_def)

section \<open>Claims\<close>

text \<open>
  C1. For every chord entry with \<open>n \<ge> 1\<close> pitch numbers, \<open>calculateVoicings\<close> returns
  exactly \<open>min n 4\<close> voicings; the first one is labelled "Root" and its pitches are the
  entry's \<open>midiNotes\<close>, element for element.
\<close>

theorem C1_voicing_count_and_root:
  assumes "length (midiNotes chord) \<ge> 1"
  shows "length (calculateVoicings chord) = min (length (midiNotes chord)) 4
       \<and> voicingName (calculateVoicings chord ! 0) = ''Root''
       \<and> voicingNotes (calculateVoicings chord ! 0) = midiNotes chord"
proof -
  from assms have ne: "midiNotes chord \<noteq> []" by auto
  from assms have "1 \<le> min (length (midiNotes chord)) 4" by simp
  then show ?thesis
    by (simp add: calculateVoicings_eq [OF ne])
qed

theorem C1_witness:
  "length (midiNotes (entryOf [60, 64, 67])) \<ge> 1
   \<and> length (calculateVoicings (entryOf [60, 64, 67])) = 3
   \<and> voicingName (calculateVoicings (entryOf [60, 64, 67]) ! 0) = ''Root''
   \<and> voicingNotes (calculateVoicings (entryOf [60, 64, 67]) ! 0) = [60, 64, 67]"
  using C1_voicing_count_and_root [of "entryOf [60, 64, 67]"]
  by (simp add: entryOf_def)

text \<open>
  C2. For every entry whose \<open>midiNotes\<close> are strictly increasing and non-empty, every
  voicing returned by \<open>calculateVoicings\<close> has as many pitches as the entry, its pitches
  are strictly increasing, and its pitches taken modulo 12 form the same multiset as the
  entry's \<open>midiNotes\<close> taken modulo 12.
\<close>

theorem C2_voicing_invariants:
  assumes "sorted_wrt (<) (midiNotes chord)"
    and "length (midiNotes chord) \<ge> 1"
    and "v \<in> set (calculateVoicings chord)"
  shows "length (voicingNotes v) = length (midiNotes chord)
       \<and> sorted_wrt (<) (voicingNotes v)
       \<and> mset (map (\<lambda>x. x mod 12) (voicingNotes v)) = mset (map (\<lambda>x. x mod 12) (midiNotes chord))"
proof -
  from assms(2) have ne: "midiNotes chord \<noteq> []" by auto
  from assms(3) consider
      (root) "v = \<lparr>voicingName = ''Root'', voicingNotes = midiNotes chord\<rparr>"
    | (inv) k where "1 \<le> k" "k < min (length (midiNotes chord)) 4" "v = inversion k (midiNotes chord)"
    unfolding calculateVoicings_set [OF ne] by auto
  then show ?thesis
  proof cases
    case root
    with assms(1) show ?thesis by simp
  next
    case inv
    let ?rot = "rotateLeft k (raiseFirst k (midiNotes chord))"
    from inv have "k < length (midiNotes chord)" by simp
    then have v: "voicingNotes v = rangePolicy (renormalize ?rot)"
      using inv(3) by (simp add: inversion_eq)
    have "length (voicingNotes v) = length (midiNotes chord)"
      unfolding v by (simp add: rangePolicy_length renormalize_length rotate_raise_length)
    moreover have "sorted_wrt (<) (voicingNotes v)"
      unfolding v by (rule rangePolicy_sorted) (rule renormalize_sorted)
    moreover have "mset (map (\<lambda>x. x mod 12) (voicingNotes v)) = mset (map (\<lambda>x. x mod 12) (midiNotes chord))"
      unfolding v rangePolicy_mod renormalize_mod by (rule rotate_raise_mod)
    ultimately show ?thesis by simp
  qed
qed

theorem C2_witness:
  "sorted_wrt (<) (midiNotes (entryOf [60, 64, 67]))
   \<and> length (midiNotes (entryOf [60, 64, 67])) \<ge> 1
   \<and> \<lparr>voicingName = ''2nd Inv'', voicingNotes = [67, 72, 76]\<rparr> \<in> set (calculateVoicings (entryOf [60, 64, 67]))
   \<and> sorted_wrt (<) [67, 72, 76 :: int]
   \<and> mset (map (\<lambda>x. x mod 12) [67, 72, 76 :: int]) = mset (map (\<lambda>x. x mod 12) [60, 64, 67])"
proof -
  have mem: "\<lparr>voicingName = ''2nd Inv'', voicingNotes = [67, 72, 76]\<rparr>
               \<in> set (calculateVoicings (entryOf [60, 64, 67]))"
    by (simp add: entryOf_def calculateVoicings_def inversionLoop.simps inversion_def
          raiseLoop.simps octaveUp.simps KEYBOARD_MAX_def inversionName_def)
  show ?thesis
    using C2_voicing_invariants [of "entryOf [60, 64, 67]"
            "\<lparr>voicingName = ''2nd Inv'', voicingNotes = [67, 72, 76]\<rparr>"] mem
    by (simp add: entryOf_def)
qed

text \<open>
  C5. For every entry and every inversion index \<open>k \<ge> 1\<close> that the generator visits
  (\<open>k < min n 4\<close>), the voicing at position \<open>k\<close> is obtained from the sequence \<open>s\<close>
  that results from raising the first \<open>k\<close> pitches by 12, rotating left by \<open>k\<close> and
  re-normalizing left to right: if the maximum of \<open>s\<close> exceeds 83, the voicing is \<open>s\<close>
  with 12 subtracted from every element exactly once, whatever the maximum is after
  that; otherwise it is \<open>s\<close> unchanged.
\<close>

theorem C5_range_policy:
  assumes "1 \<le> k" and "k < min (length (midiNotes chord)) 4"
  shows "voicingNotes (calculateVoicings chord ! k) =
           (let s = renormalize (rotateLeft k (raiseFirst k (midiNotes chord)))
            in if Max (set s) > 83 then map (\<lambda>x. x - 12) s else s)"
proof -
  from assms have "k < length (midiNotes chord)" by simp
  then show ?thesis
    by (simp add: calculateVoicings_nth [OF assms] inversion_eq rangePolicy_def)
qed

text \<open>
  At the entry with pitches 100 and 104 the shifted maximum is 100, still above 83, and
  the voicing is emitted after the one shift.
\<close>

theorem C5_witness:
  "(1::nat) \<le> 1 \<and> 1 < min (length (midiNotes (entryOf [100, 104]))) 4
   \<and> renormalize (rotateLeft 1 (raiseFirst 1 [100, 104])) = [104, 112]
   \<and> voicingNotes (calculateVoicings (entryOf [100, 104]) ! 1) = [92, 100]"
  using C5_range_policy [of 1 "entryOf [100, 104]"]
  by (simp add: entryOf_def raiseFirst_def rotateLeft_def liftAbove_def)

text \<open>
  C3. The claim: for every non-empty list of note-name labels the pitch assignment takes
  the first mapped pitch as it is, lifts each later one by octaves above its predecessor,
  and so returns a strictly increasing list of pitch numbers. At the labels "constructor"
  and "C" the code does not: the first label is found among the inherited members of the
  table, the fallback to 60 is not taken, the value stored is a string, and the pitch 60
  of the second label is compared with that string, found not to be at or below it, and
  stored unlifted.
\<close>

theorem C3_inherited_label:
  "convertChordNotesToMidi [''constructor'', ''C'']
     = Some [Str ''function Object() { [native code] }60'', Num 60]"
  by (simp add: convertChordNotesToMidi_def noteToMidi_def noteMap_def inheritedMembers_def
        trim_def isWhiteSpace_def octaveUpVal.simps)

text \<open>
  C6. The pitch mapper sends the unmodified letter C to 60 and sends the sharp of one
  letter and the flat of the next letter to the same pitch number, for the five pairs of
  the table and for the pairs E#/Fb and B#/Cb (which are not in the table and both take
  the fallback value). Spelled with sharps or with flats, the twelve pitch classes map to
  60, ..., 71.
\<close>

theorem C6_enharmonic_aliases:
  "noteToMidi ''C'' = Num 60
   \<and> noteToMidi ''C#'' = noteToMidi ''Db''
   \<and> noteToMidi ''D#'' = noteToMidi ''Eb''
   \<and> noteToMidi ''E#'' = noteToMidi ''Fb''
   \<and> noteToMidi ''F#'' = noteToMidi ''Gb''
   \<and> noteToMidi ''G#'' = noteToMidi ''Ab''
   \<and> noteToMidi ''A#'' = noteToMidi ''Bb''
   \<and> noteToMidi ''B#'' = noteToMidi ''Cb''
   \<and> map noteToMidi [''C'', ''C#'', ''D'', ''D#'', ''E'', ''F'', ''F#'', ''G'', ''G#'', ''A'', ''A#'', ''B'']
       = map Num [60, 61, 62, 63, 64, 65, 66, 67, 68, 69, 70, 71]
   \<and> map noteToMidi [''C'', ''Db'', ''D'', ''Eb'', ''E'', ''F'', ''Gb'', ''G'', ''Ab'', ''A'', ''Bb'', ''B'']
       = map Num [60, 61, 62, 63, 64, 65, 66, 67, 68, 69, 70, 71]"
  by (simp add: noteToMidi_def noteMap_def inheritedMembers_def trim_def isWhiteSpace_def)

text \<open>
  C7. The claim: every value of \<open>midiNotes\<close> of every parsed entry lies in 0..127. At
  the catalog whose one record has six notes B the code does not keep to it: the parser
  returns, and the pitches stored are 71, 83, 95, 107, 119 and 131.
\<close>

theorem C7_six_notes:
  "map_option (\<lambda>r. map midiNotes (fst r)) (parseCsvText sixNoteCatalog)
     = Some [[Num 71, Num 83, Num 95, Num 107, Num 119, Num 131]]"
  by (simp add: sixNoteCatalog_def eval_defs)

text \<open>
  C8 as stated (an entry is produced exactly for the lines of the four-field shape)
  fails: a line with five top-level fields matches the pattern, whose last group takes
  the rest of the line with its commas, and an entry is produced.
\<close>

theorem C8_counterexample:
  "parseCsvText (csvOf [headerLine, fiveFieldLine]) =
     Some ([\<lparr>name = ''N'', noteNames = [''C''], midiNotes = [Num 60], type = ''T'',
             extension = ''E,X''\<rparr>], [])
   \<and> \<not> fourFieldShape fiveFieldLine"
proof -
  have "parseCsvText (csvOf [headerLine, fiveFieldLine]) =
     Some ([\<lparr>name = ''N'', noteNames = [''C''], midiNotes = [Num 60], type = ''T'',
             extension = ''E,X''\<rparr>], [])"
    by (simp add: fiveFieldLine_def eval_defs)
  moreover have "\<not> fourFieldShape fiveFieldLine"
  proof
    assume "fourFieldShape fiveFieldLine"
    then obtain n ns c sub where
      line: "fiveFieldLine = n @ comma # (dquote # ns @ dquote # comma # c @ comma # sub)"
      and n: "comma \<notin> set n" and ns: "dquote \<notin> set ns"
      and c: "comma \<notin> set c" and sub: "comma \<notin> set sub"
      unfolding fourFieldShape_def by auto
    from split_at_iff [of comma fiveFieldLine n "dquote # ns @ dquote # comma # c @ comma # sub"] line n
    have "dropWhile (\<lambda>c. c \<noteq> comma) fiveFieldLine = comma # dquote # ns @ dquote # comma # c @ comma # sub"
      by simp
    then have r2: "ns @ dquote # comma # c @ comma # sub = ''C'' @ [dquote] @ '',T,E,X''"
      by (simp add: fiveFieldLine_def recordLine_def comma_def dquote_def)
    from split_at_iff [of dquote "ns @ dquote # comma # c @ comma # sub" ns "comma # c @ comma # sub"] ns
    have "dropWhile (\<lambda>c. c \<noteq> dquote) (ns @ dquote # comma # c @ comma # sub) = dquote # comma # c @ comma # sub"
      by simp
    then have r4: "c @ comma # sub = ''T,E,X''"
      unfolding r2 by (simp add: dquote_def comma_def)
    from split_at_iff [of comma "c @ comma # sub" c sub] c
    have "dropWhile (\<lambda>c. c \<noteq> comma) (c @ comma # sub) = comma # sub"
      by simp
    then have "sub = ''E,X''"
      unfolding r4 by (simp add: comma_def)
    with sub show False by (simp add: comma_def)
  qed
  ultimately show ?thesis by simp
qed

text \<open>
  C8, amended. For every raw catalog text, the parser produces an entry from a line after
  the header that is not blank if and only if that line, trimmed, matches the pattern: a
  non-empty comma-free name, a quoted non-empty quote-free note list, a non-empty
  comma-free category, and a non-empty rest that may itself hold commas (so a line of
  more than four top-level fields produces an entry too), provided the pitch assignment
  of the line's note list returns. A line that does not match is dropped with the
  diagnostic "Could not parse line", and parsing continues with the lines after it: the
  result of the load is made of the contributions of the lines, each on its own and in
  order, so a malformed line never aborts the load and the well-formed lines around it
  still produce their entries.
\<close>

theorem C8_line_parsing:
  "parseCsvText text =
     (case those (map lineResult (drop 1 (split (CHR 0x0A) (trim text)))) of
        None \<Rightarrow> None
      | Some rs \<Rightarrow> Some (concat (map fst rs), concat (map snd rs)))
   \<and> (\<forall>l. trim l = [] \<longrightarrow> lineResult l = Some ([], []))
   \<and> (\<forall>l g1 g2 g3 g4. patternShape (trim l) g1 g2 g3 g4 \<longrightarrow>
         lineResult l = map_option (\<lambda>(chord, log). ([chord], log)) (makeChord (g1, g2, g3, g4)))
   \<and> (\<forall>l. trim l \<noteq> [] \<and> \<not> (\<exists>g1 g2 g3 g4. patternShape (trim l) g1 g2 g3 g4) \<longrightarrow>
         lineResult l = Some ([], [''Could not parse line: '' @ trim l])
         \<and> (\<forall>ls chords warnings.
               parseLoop (l # ls) (chords, warnings)
                 = parseLoop ls (chords, warnings @ [''Could not parse line: '' @ trim l])))"
proof -
  have blank: "lineResult l = Some ([], [])" if "trim l = []" for l
    using that by (simp add: lineResult_def)
  have good: "lineResult l = map_option (\<lambda>(chord, log). ([chord], log)) (makeChord (g1, g2, g3, g4))"
    if "patternShape (trim l) g1 g2 g3 g4" for l g1 g2 g3 g4
  proof -
    from that have m: "matchLine (trim l) = Some (g1, g2, g3, g4)" by (simp only: matchLine_iff)
    from that have "trim l \<noteq> []" by (auto simp: patternShape_def)
    with m show ?thesis
      by (simp add: lineResult_def Let_def)
  qed
  have bad: "lineResult l = Some ([], [''Could not parse line: '' @ trim l])
         \<and> (\<forall>ls chords warnings.
               parseLoop (l # ls) (chords, warnings)
                 = parseLoop ls (chords, warnings @ [''Could not parse line: '' @ trim l]))"
    if "trim l \<noteq> []" "\<not> (\<exists>g1 g2 g3 g4. patternShape (trim l) g1 g2 g3 g4)" for l
  proof -
    from that(2) have "matchLine (trim l) = None" using matchLine_Some_iff [of "trim l"] by blast
    with that(1) show ?thesis
      by (simp add: lineResult_def Let_def)
  qed
  from blank good bad parseCsvText_eq [of "text"] show ?thesis by blast
qed

theorem C8_witness:
  "drop 1 (split (CHR 0x0A) (trim mixedCatalog)) =
          [recordLine ''C'' ''C, E,G'' ''Major,Triad'', ''Cm,C,Eb,G,Minor,Triad'', [],
           recordLine ''G'' ''G,H,D'' ''Major,Triad'']
   \<and> map_option (\<lambda>r. map name (fst r)) (parseCsvText mixedCatalog) = Some [''C'', ''G'']
   \<and> map_option snd (parseCsvText mixedCatalog)
       = Some [''Could not parse line: Cm,C,Eb,G,Minor,Triad'', ''Unknown note: H'']"
proof -
  have ls: "drop 1 (split (CHR 0x0A) (trim mixedCatalog)) =
          [recordLine ''C'' ''C, E,G'' ''Major,Triad'', ''Cm,C,Eb,G,Minor,Triad'', [],
           recordLine ''G'' ''G,H,D'' ''Major,Triad'']"
    by (simp add: mixedCatalog_def csvOf_def recordLine_def headerLine_def trim_def
          isWhiteSpace_def comma_def dquote_def)
  have "parseCsvText mixedCatalog =
     (case those (map lineResult (drop 1 (split (CHR 0x0A) (trim mixedCatalog)))) of
        None \<Rightarrow> None
      | Some rs \<Rightarrow> Some (concat (map fst rs), concat (map snd rs)))"
    using C8_line_parsing [of mixedCatalog] by blast
  then have "map_option (\<lambda>r. map name (fst r)) (parseCsvText mixedCatalog) = Some [''C'', ''G'']"
    and "map_option snd (parseCsvText mixedCatalog)
       = Some [''Could not parse line: Cm,C,Eb,G,Minor,Triad'', ''Unknown note: H'']"
    unfolding ls by (simp_all add: lineResult_def eval_defs)
  with ls show ?thesis by blast
qed

text \<open>
  C4 as stated fails in its last part: in a catalog that holds a Major Triad named "C"
  after a Major Triad named "c", both names match the query "c" exactly when case is
  ignored and every tier ties (the two lower-cased names are the same string, on which
  every \<^verbatim>\<open>localeCompare\<close> answers 0), so the stable sort keeps the order of the
  catalog and "c" comes first.
\<close>

theorem C4_counterexample:
  "map_option (\<lambda>r. map name (fst r)) (searchChords codeUnitCompare ''c'' (Some lowerNameCatalog) None)
     = Some [''c'', ''C'']"
  by (simp add: lowerNameCatalog_def search_eval_defs eval_defs)

text \<open>
  C4, amended. If the query trimmed of whitespace is empty, the search returns the empty
  sequence and leaves the cache as it is (the catalog is not loaded). Otherwise the
  search returns when the load of the catalog does, and the result is the first 20 entries of a sequence that holds exactly
  the catalog entries whose lower-cased name contains the lower-cased query as a
  contiguous substring, and in which no entry is ranked before an earlier one by the five
  tiers, the last of them the order of \<^verbatim>\<open>localeCompare\<close> on the lower-cased names.
  In a catalog that holds an entry named "C" and no entry named "c", the search for "c"
  is not empty and its first entry is named "C". This holds for every consistent
  \<^verbatim>\<open>localeCompare\<close>.
\<close>

theorem C4_search:
  assumes "consistentComparator localeCompare"
  shows "(trim query = [] \<longrightarrow> searchChords localeCompare query source db = Some ([], db))
   \<and> (trim query \<noteq> [] \<longrightarrow>
        (loadChordDatabase source db = None \<longrightarrow> searchChords localeCompare query source db = None) \<and>
        (\<forall>chords db'. loadChordDatabase source db = Some (chords, db') \<longrightarrow>
           (\<exists>ranked. searchChords localeCompare query source db = Some (take 20 ranked, db')
              \<and> mset ranked = mset (filter (\<lambda>chord. sublist (toLowerCase query) (toLowerCase (name chord))) chords)
              \<and> sorted_wrt (\<lambda>a b. \<not> ranksBefore localeCompare (toLowerCase query) b a) ranked)))
   \<and> (\<forall>chords db'. loadChordDatabase source db = Some (chords, db')
          \<and> (\<exists>e \<in> set chords. name e = ''C'') \<and> (\<forall>e \<in> set chords. name e \<noteq> ''c'') \<longrightarrow>
        (\<exists>res. searchChords localeCompare ''c'' source db = Some (res, db')
           \<and> res \<noteq> [] \<and> name (hd res) = ''C''))"
  (is "?blank \<and> ?ranked \<and> ?example")
proof -
  have blank: ?blank by (simp add: searchChords_def)
  have ranked: ?ranked
  proof (intro impI allI conjI)
    assume "trim query \<noteq> []" and "loadChordDatabase source db = None"
    then show "searchChords localeCompare query source db = None"
      by (simp add: searchChords_def)
  next
    fix chords :: "jsval ChordData list" and db'
    assume nb: "trim query \<noteq> []" and load: "loadChordDatabase source db = Some (chords, db')"
    let ?hits = "filter (\<lambda>chord. sublist (toLowerCase query) (toLowerCase (name chord))) chords"
    let ?sorted = "sortBy (compareChords localeCompare (toLowerCase query)) ?hits"
    have "searchChords localeCompare query source db = Some (take 20 ?sorted, db')"
      by (rule searchChords_nonblank [OF nb load])
    moreover have "mset ?sorted = mset ?hits" by (rule sortBy_mset)
    moreover have "sorted_wrt (\<lambda>a b. \<not> ranksBefore localeCompare (toLowerCase query) b a) ?sorted"
      by (rule sortBy_sorted [OF assms])
    ultimately show "\<exists>ranked. searchChords localeCompare query source db = Some (take 20 ranked, db')
              \<and> mset ranked = mset ?hits
              \<and> sorted_wrt (\<lambda>a b. \<not> ranksBefore localeCompare (toLowerCase query) b a) ranked"
      by blast
  qed
  have example: ?example
  proof (intro impI allI)
    fix chords :: "jsval ChordData list" and db'
    let ?hits = "filter (\<lambda>chord. sublist (toLowerCase ''c'') (toLowerCase (name chord))) chords"
    let ?sorted = "sortBy (compareChords localeCompare (toLowerCase ''c'')) ?hits"
    assume a: "loadChordDatabase source db = Some (chords, db')
          \<and> (\<exists>e \<in> set chords. name e = ''C'') \<and> (\<forall>e \<in> set chords. name e \<noteq> ''c'')"
    then obtain e where e: "e \<in> set chords" "name e = ''C''" by blast
    have lc: "toLowerCase ''c'' = ''c''" "toLowerCase ''C'' = ''c''"
      by (simp_all add: toLowerCase_def toLowerChar_def upperCaseUnits_def lowerCaseUnits_def)
    from e have "e \<in> set ?hits" by (simp add: lc)
    moreover from e have "toLowerCase (name e) = toLowerCase ''c''" by (simp add: lc)
    ultimately have hd: "?sorted \<noteq> []" "toLowerCase (name (hd ?sorted)) = toLowerCase ''c''"
      using exact_ranks_first [OF assms, of e ?hits "toLowerCase ''c''"] by simp_all
    have nb: "trim ''c'' \<noteq> []" by (simp add: trim_def isWhiteSpace_def)
    from a have load: "loadChordDatabase source db = Some (chords, db')" by simp
    have res: "searchChords localeCompare ''c'' source db = Some (take 20 ?sorted, db')"
      by (rule searchChords_nonblank [OF nb load])
    from hd(1) have hd_take: "hd (take 20 ?sorted) = hd ?sorted" by (cases ?sorted) simp_all
    from hd(1) have "hd ?sorted \<in> set ?sorted" by simp
    then have "hd ?sorted \<in> set chords" by (simp add: sortBy_set)
    with a have "name (hd ?sorted) \<noteq> ''c''" by blast
    with hd(2) toLowerCase_c [of "name (hd ?sorted)"] have "name (hd ?sorted) = ''C''"
      by (simp add: lc)
    with hd(1) hd_take have "take 20 ?sorted \<noteq> [] \<and> name (hd (take 20 ?sorted)) = ''C''"
      by simp
    with res show "\<exists>res. searchChords localeCompare ''c'' source db = Some (res, db')
           \<and> res \<noteq> [] \<and> name (hd res) = ''C''"
      by blast
  qed
  from blank ranked example show ?thesis by (intro conjI)
qed

theorem C4_witness:
  "consistentComparator codeUnitCompare
   \<and> trim ''  '' = []
   \<and> searchChords codeUnitCompare ''  '' (Some cCatalog) None = Some ([], None)
   \<and> trim ''c'' \<noteq> []
   \<and> map_option (\<lambda>r. map name (fst r)) (loadChordDatabase (Some cCatalog) None)
       = Some [''Cm'', ''Csus4'', ''D'', ''C'']
   \<and> map_option (\<lambda>r. map name (fst r)) (searchChords codeUnitCompare ''c'' (Some cCatalog) None)
       = Some [''C'', ''Cm'', ''Csus4'']
   \<and> map_option (\<lambda>r. name (hd (fst r))) (searchChords codeUnitCompare ''c'' (Some cCatalog) None)
       = Some ''C''"
proof -
  note cons = codeUnitCompare_consistent
  have names: "map_option (\<lambda>r. map name (fst r)) (loadChordDatabase (Some cCatalog) None)
                 = Some [''Cm'', ''Csus4'', ''D'', ''C'']"
    by (simp add: loadChordDatabase_def parseChordData_def cCatalog_def eval_defs)
  then obtain chords db' where load: "loadChordDatabase (Some cCatalog) None = Some (chords, db')"
    and cn: "map name chords = [''Cm'', ''Csus4'', ''D'', ''C'']"
    by (cases "loadChordDatabase (Some cCatalog) None") auto
  have "''C'' \<in> set (map name chords)" unfolding cn by simp
  then have h1: "\<exists>e \<in> set chords. name e = ''C''" by auto
  have "''c'' \<notin> set (map name chords)" unfolding cn by simp
  then have h2: "\<forall>e \<in> set chords. name e \<noteq> ''c''" by (metis image_eqI set_map)
  have blank: "trim ''  '' = []" by (simp add: trim_def isWhiteSpace_def)
  have nonblank: "trim ''c'' \<noteq> []" by (simp add: trim_def isWhiteSpace_def)
  have res: "map_option (\<lambda>r. map name (fst r)) (searchChords codeUnitCompare ''c'' (Some cCatalog) None)
               = Some [''C'', ''Cm'', ''Csus4'']"
    by (simp add: cCatalog_def search_eval_defs eval_defs)
  from C4_search [OF cons, of "''  ''" "Some cCatalog" None] blank
  have empty: "searchChords codeUnitCompare ''  '' (Some cCatalog) None = Some ([], None)" by blast
  from C4_search [OF cons, of "''c''" "Some cCatalog" None] load h1 h2
  obtain r where "searchChords codeUnitCompare ''c'' (Some cCatalog) None = Some (r, db')"
    and "name (hd r) = ''C''" by blast
  then have first: "map_option (\<lambda>r. name (hd (fst r))) (searchChords codeUnitCompare ''c'' (Some cCatalog) None)
                      = Some ''C''" by simp
  from cons blank empty nonblank names res first show ?thesis by blast
qed

text \<open>
  C10. For every query that is not empty after trimming, once the catalog is loaded,
  \<open>searchChords\<close> returns, every entry it returns is an entry of the catalog whose
  lower-cased name contains the lower-cased query as it was passed, surrounding
  whitespace included, and the entries are ranked by the five tiers with that same
  untrimmed, lower-cased query. This holds for every consistent \<^verbatim>\<open>localeCompare\<close>.
\<close>

theorem C10_untrimmed_query:
  assumes "trim query \<noteq> []"
    and "consistentComparator localeCompare"
    and "loadChordDatabase source db = Some (chords, db')"
  shows "\<exists>res. searchChords localeCompare query source db = Some (res, db')
           \<and> (\<forall>e \<in> set res. e \<in> set chords
                 \<and> sublist (toLowerCase query) (toLowerCase (name e)))
           \<and> sorted_wrt (\<lambda>a b. \<not> ranksBefore localeCompare (toLowerCase query) b a) res"
proof -
  let ?hits = "filter (\<lambda>chord. sublist (toLowerCase query) (toLowerCase (name chord))) chords"
  let ?sorted = "sortBy (compareChords localeCompare (toLowerCase query)) ?hits"
  have res: "searchChords localeCompare query source db = Some (take 20 ?sorted, db')"
    by (rule searchChords_nonblank [OF assms(1,3)])
  have "set (take 20 ?sorted) \<subseteq> set ?sorted" by (rule set_take_subset)
  also have "set ?sorted = set ?hits" by (rule sortBy_set)
  finally have sub: "set (take 20 ?sorted) \<subseteq> set ?hits" .
  have "sorted_wrt (\<lambda>a b. \<not> ranksBefore localeCompare (toLowerCase query) b a) (take 20 ?sorted)"
    using sortBy_sorted [OF assms(2)] by (rule sorted_wrt_take)
  with sub res show ?thesis by auto
qed

text \<open>
  The query " m" (with its leading space) returns the entry named "C major" and not the
  entry named "Cm".
\<close>

theorem C10_witness:
  "trim '' m'' \<noteq> []
   \<and> consistentComparator codeUnitCompare
   \<and> map_option (\<lambda>r. map name (fst r)) (loadChordDatabase (Some spacedCatalog) None)
       = Some [''Cm'', ''C major'']
   \<and> map_option (\<lambda>r. map name (fst r)) (searchChords codeUnitCompare '' m'' (Some spacedCatalog) None)
       = Some [''C major'']
   \<and> map_option (\<lambda>r. list_all (\<lambda>e. sublist (toLowerCase '' m'') (toLowerCase (name e))) (fst r))
        (searchChords codeUnitCompare '' m'' (Some spacedCatalog) None) = Some True"
proof -
  note cons = codeUnitCompare_consistent
  have nb: "trim '' m'' \<noteq> []" by (simp add: trim_def isWhiteSpace_def)
  have names: "map_option (\<lambda>r. map name (fst r)) (loadChordDatabase (Some spacedCatalog) None)
                 = Some [''Cm'', ''C major'']"
    by (simp add: loadChordDatabase_def parseChordData_def spacedCatalog_def eval_defs)
  then obtain chords db' where load: "loadChordDatabase (Some spacedCatalog) None = Some (chords, db')"
    by (cases "loadChordDatabase (Some spacedCatalog) None") auto
  have res: "map_option (\<lambda>r. map name (fst r)) (searchChords codeUnitCompare '' m'' (Some spacedCatalog) None)
               = Some [''C major'']"
    by (simp add: spacedCatalog_def search_eval_defs eval_defs)
  from C10_untrimmed_query [OF nb cons load]
  obtain r where "searchChords codeUnitCompare '' m'' (Some spacedCatalog) None = Some (r, db')"
    and "\<forall>e \<in> set r. sublist (toLowerCase '' m'') (toLowerCase (name e))" by blast
  then have "map_option (\<lambda>r. list_all (\<lambda>e. sublist (toLowerCase '' m'') (toLowerCase (name e))) (fst r))
        (searchChords codeUnitCompare '' m'' (Some spacedCatalog) None) = Some True"
    by (simp add: list_all_iff)
  with nb cons names res show ?thesis by blast
qed

text \<open>
  C9 as stated (the two generators agree on every entry whose \<open>midiNotes\<close> are strictly
  ascending) fails: for the pitches 71, 75, 78 of a B major triad the second inversion of
  the order-preserving generator is shifted down an octave by the range policy, that of
  the sort-based generator is not.
\<close>

theorem C9_counterexample:
  "sorted_wrt (<) (midiNotes (entryOf [71, 75, 78]))
   \<and> voicingNotes (calculateVoicings (entryOf [71, 75, 78]) ! 2) = [66, 71, 75]
   \<and> voicingNotes (calculateVoicings_sortBased (entryOf [71, 75, 78]) ! 2) = [78, 83, 87]
   \<and> calculateVoicings (entryOf [71, 75, 78]) \<noteq> calculateVoicings_sortBased (entryOf [71, 75, 78])"
proof -
  have a: "calculateVoicings (entryOf [71, 75, 78]) =
     [\<lparr>voicingName = ''Root'', voicingNotes = [71, 75, 78]\<rparr>,
      \<lparr>voicingName = ''1st Inv'', voicingNotes = [75, 78, 83]\<rparr>,
      \<lparr>voicingName = ''2nd Inv'', voicingNotes = [66, 71, 75]\<rparr>]"
    by (simp add: entryOf_def calculateVoicings_def inversionLoop.simps inversion_def
          raiseLoop.simps octaveUp.simps KEYBOARD_MAX_def inversionName_def)
  have b: "calculateVoicings_sortBased (entryOf [71, 75, 78]) =
     [\<lparr>voicingName = ''Root'', voicingNotes = [71, 75, 78]\<rparr>,
      \<lparr>voicingName = ''1st Inv'', voicingNotes = [75, 78, 83]\<rparr>,
      \<lparr>voicingName = ''2nd Inv'', voicingNotes = [78, 83, 87]\<rparr>]"
    by (simp add: entryOf_def calculateVoicings_sortBased_def)
  show ?thesis unfolding a b by (simp add: entryOf_def)
qed

text \<open>
  C9, amended. For every entry whose \<open>midiNotes\<close> are strictly ascending, span less
  than an octave (highest below lowest plus 12) and whose pitches raised by the first two
  inversions (the lowest, and the second lowest when there are three or more notes) are
  at most 71, the sort-based generator returns exactly the first three voicings of the
  order-preserving generator; so the two results are equal when the entry has at most
  three notes.
\<close>

theorem C9_variants_agree:
  assumes "sorted_wrt (<) (midiNotes chord)"
    and "midiNotes chord \<noteq> []"
    and "last (midiNotes chord) < hd (midiNotes chord) + 12"
    and "\<forall>i. i < 2 \<and> Suc i < length (midiNotes chord) \<longrightarrow> midiNotes chord ! i \<le> 71"
  shows "calculateVoicings_sortBased chord = take 3 (calculateVoicings chord)
       \<and> (length (midiNotes chord) \<le> 3 \<longrightarrow> calculateVoicings_sortBased chord = calculateVoicings chord)"
proof -
  let ?xs = "midiNotes chord"
  have i1: "inversion 1 ?xs = \<lparr>voicingName = ''1st Inv'', voicingNotes = sort (raiseFirst 1 ?xs)\<rparr>"
    if "length ?xs > 1"
  proof -
    from that assms(4) have "\<forall>i<1. ?xs ! i \<le> 71" by simp
    with inversion_plain [OF assms(1,3), of 1] that show ?thesis
      by (simp add: inversionName_def)
  qed
  have i2: "inversion 2 ?xs = \<lparr>voicingName = ''2nd Inv'', voicingNotes = sort (raiseFirst 2 ?xs)\<rparr>"
    if "length ?xs > 2"
  proof -
    from that assms(4) have "\<forall>i<2. ?xs ! i \<le> 71" by auto
    with inversion_plain [OF assms(1,3), of 2] that show ?thesis
      by (simp add: inversionName_def)
  qed
  have eq3: "calculateVoicings_sortBased chord = take 3 (calculateVoicings chord)"
    unfolding sortBased_eq [OF assms(2,1)] take3_voicings [OF assms(2)]
    using i1 i2 by simp
  moreover have "take 3 (calculateVoicings chord) = calculateVoicings chord"
    if "length ?xs \<le> 3"
  proof -
    from assms(2) have "length ?xs \<ge> 1" by (cases ?xs) simp_all
    then have "length (calculateVoicings chord) = min (length ?xs) 4"
      by (simp add: calculateVoicings_eq [OF assms(2)])
    with that show ?thesis by simp
  qed
  ultimately show ?thesis by simp
qed

theorem C9_witness:
  "sorted_wrt (<) (midiNotes (entryOf [60, 64, 67]))
   \<and> midiNotes (entryOf [60, 64, 67]) \<noteq> []
   \<and> last (midiNotes (entryOf [60, 64, 67])) < hd (midiNotes (entryOf [60, 64, 67])) + 12
   \<and> midiNotes (entryOf [60, 64, 67]) ! 0 \<le> 71
   \<and> midiNotes (entryOf [60, 64, 67]) ! 1 \<le> 71
   \<and> length (midiNotes (entryOf [60, 64, 67])) \<le> 3
   \<and> calculateVoicings_sortBased (entryOf [60, 64, 67]) = calculateVoicings (entryOf [60, 64, 67])"
proof -
  have h1: "sorted_wrt (<) (midiNotes (entryOf [60, 64, 67]))"
    and h2: "midiNotes (entryOf [60, 64, 67]) \<noteq> []"
    and h3: "last (midiNotes (entryOf [60, 64, 67])) < hd (midiNotes (entryOf [60, 64, 67])) + 12"
    and len: "length (midiNotes (entryOf [60, 64, 67])) \<le> 3"
    and low: "midiNotes (entryOf [60, 64, 67]) ! 0 \<le> 71" "midiNotes (entryOf [60, 64, 67]) ! 1 \<le> 71"
    by (simp_all add: entryOf_def)
  have h4: "\<forall>i. i < 2 \<and> Suc i < length (midiNotes (entryOf [60, 64, 67])) \<longrightarrow> midiNotes (entryOf [60, 64, 67]) ! i \<le> 71"
    by (auto simp: entryOf_def less_Suc_eq numeral_2_eq_2)
  from C9_variants_agree [OF h1 h2 h3 h4] len
  have "calculateVoicings_sortBased (entryOf [60, 64, 67]) = calculateVoicings (entryOf [60, 64, 67])"
    by blast
  with h1 h2 h3 low len show ?thesis by blast
qed

end
